theory Spec2Isabelle
  imports Main "HOL-Library.Word"
begin

unbundle bit_operations_syntax

section \<open>Common types\<close>

type_synonym byte = "8 word"
type_synonym bytes = "byte list"

text \<open>A Go string is an immutable byte sequence; a string literal is its ASCII bytes.\<close>

definition go_string :: "string \<Rightarrow> bytes" where
  "go_string s = map (\<lambda>c. of_nat (of_char c)) s"

section \<open>Storage fees migration (cmd/util/ledger/migrations/storage-fees-migration.go)\<close>

subsection \<open>Ledger data\<close>

record KeyPart =
  kp_Type :: "16 word"
  kp_Value :: bytes

record Key =
  KeyParts :: "KeyPart list"

record Payload =
  p_Key :: Key
  p_Value :: bytes

record RegisterID =
  Owner :: bytes
  Controller :: bytes
  r_Key :: bytes

text \<open>
  The functions and constants of other packages that the migration calls; their code is
  not part of the migration file, so each is a field of this record:
  \<open>keyToRegisterId\<close> (same package), \<open>fvm.RegisterSize\<close>, \<open>flow.BytesToAddress\<close>,
  \<open>flow.AddressLength\<close>, the key part types of \<open>state\<close>, and \<open>utils.Uint64ToBinary\<close>.
\<close>

record ('e, 'addr) ledger_deps =
  keyToRegisterId :: "Key \<Rightarrow> 'e + RegisterID"
  RegisterSize :: "'addr \<Rightarrow> bool \<Rightarrow> bytes \<Rightarrow> bytes \<Rightarrow> int"
  BytesToAddress :: "bytes \<Rightarrow> 'addr"
  AddressLength :: nat
  KeyPartOwner :: "16 word"
  KeyPartController :: "16 word"
  KeyPartKey :: "16 word"
  Uint64ToBinary :: "64 word \<Rightarrow> bytes"

subsection \<open>The migration\<close>

definition makeKey :: "('e, 'addr) ledger_deps \<Rightarrow> bytes \<Rightarrow> bytes \<Rightarrow> Key" where
  "makeKey d owner key =
     \<lparr>KeyParts =
        [\<lparr>kp_Type = KeyPartOwner d, kp_Value = owner\<rparr>,
         \<lparr>kp_Type = KeyPartController d, kp_Value = go_string ''''\<rparr>,
         \<lparr>kp_Type = KeyPartKey d, kp_Value = key\<rparr>]\<rparr>"

definition registerSize :: "('e, 'addr) ledger_deps \<Rightarrow> RegisterID \<Rightarrow> Payload \<Rightarrow> int" where
  "registerSize d rid p =
     (let address = BytesToAddress d (Owner rid);
          isController = (length (Controller rid) > 0);
          key = r_Key rid
      in RegisterSize d address isController key (p_Value p))"

text \<open>Reading a Go map at a missing key gives the zero value.\<close>

definition map_get :: "(bytes \<rightharpoonup> 64 word) \<Rightarrow> bytes \<Rightarrow> 64 word" where
  "map_get used k = (case used k of None \<Rightarrow> 0 | Some u \<Rightarrow> u)"

text \<open>\<open>process\<close> mutates the map it is given; the model returns the updated map.\<close>

definition process ::
  "('e, 'addr) ledger_deps \<Rightarrow> Payload \<Rightarrow> (bytes \<rightharpoonup> 64 word) \<Rightarrow> 'e + (bytes \<rightharpoonup> 64 word)" where
  "process d p used =
     (case keyToRegisterId d (p_Key p) of
        Inl err \<Rightarrow> Inl err
      | Inr rid \<Rightarrow>
          if length (Owner rid) \<noteq> AddressLength d then Inr used
          else
            (let used1 = (if used (Owner rid) = None then used(Owner rid \<mapsto> 0) else used)
             in Inr (used1(Owner rid \<mapsto>
                   (map_get used1 (Owner rid) + word_of_int (registerSize d rid p))))))"

text \<open>
  The first loop of \<open>StorageFeesMigration\<close>: \<open>i\<close> is the loop index, \<open>newPayload\<close> the
  slice allocated with the input's length and written by index.
\<close>

fun process_loop ::
  "('e, 'addr) ledger_deps \<Rightarrow> Payload list \<Rightarrow> nat \<Rightarrow> (bytes \<rightharpoonup> 64 word) \<Rightarrow> Payload list
   \<Rightarrow> 'e + ((bytes \<rightharpoonup> 64 word) \<times> Payload list)" where
  "process_loop d [] i storageUsed newPayload = Inr (storageUsed, newPayload)"
| "process_loop d (p # ps) i storageUsed newPayload =
     (case process d p storageUsed of
        Inl err \<Rightarrow> Inl err
      | Inr storageUsed' \<Rightarrow> process_loop d ps (Suc i) storageUsed' (newPayload[i := p]))"

definition zeroPayload :: Payload where
  "zeroPayload = \<lparr>p_Key = \<lparr>KeyParts = []\<rparr>, p_Value = []\<rparr>"

text \<open>
  The second loop ranges over the map. Go leaves the order of a map range unspecified, so
  the order is an argument: \<open>order\<close> lists the keys of the map in the order the range
  visits them.
\<close>

fun append_loop ::
  "('e, 'addr) ledger_deps \<Rightarrow> (bytes \<rightharpoonup> 64 word) \<Rightarrow> bytes list \<Rightarrow> Payload list \<Rightarrow> Payload list" where
  "append_loop d storageUsed [] newPayload = newPayload"
| "append_loop d storageUsed (s # ss) newPayload =
     (let storageUsedByStorageUsed =
            RegisterSize d (BytesToAddress d s) False (go_string ''storage_used'') (replicate 8 0);
          u = map_get storageUsed s + word_of_int storageUsedByStorageUsed
      in append_loop d storageUsed ss
           (newPayload @ [\<lparr>p_Key = makeKey d s (go_string ''storage_used''),
                           p_Value = Uint64ToBinary d u\<rparr>]))"

definition StorageFeesMigration ::
  "('e, 'addr) ledger_deps \<Rightarrow> ((bytes \<rightharpoonup> 64 word) \<Rightarrow> bytes list) \<Rightarrow> Payload list
   \<Rightarrow> 'e + Payload list" where
  "StorageFeesMigration d order payload =
     (case process_loop d payload 0 Map.empty (replicate (length payload) zeroPayload) of
        Inl err \<Rightarrow> Inl err
      | Inr (storageUsed, newPayload) \<Rightarrow>
          Inr (append_loop d storageUsed (order storageUsed) newPayload))"

text \<open>The map after the first loop, and what a range over a map may do.\<close>

definition storageUsed_after ::
  "('e, 'addr) ledger_deps \<Rightarrow> Payload list \<Rightarrow> 'e + (bytes \<rightharpoonup> 64 word)" where
  "storageUsed_after d payload =
     (case process_loop d payload 0 Map.empty (replicate (length payload) zeroPayload) of
        Inl err \<Rightarrow> Inl err
      | Inr (storageUsed, newPayload) \<Rightarrow> Inr storageUsed)"

definition range_order :: "(bytes \<rightharpoonup> 64 word) \<Rightarrow> bytes list \<Rightarrow> bool" where
  "range_order m ks \<longleftrightarrow> distinct ks \<and> set ks = dom m"

text \<open>The owners of the input that are addresses.\<close>

definition address_owners :: "('e, 'addr) ledger_deps \<Rightarrow> Payload list \<Rightarrow> bytes set" where
  "address_owners d payload =
     {Owner rid | rid p. p \<in> set payload \<and> keyToRegisterId d (p_Key p) = Inr rid
                       \<and> length (Owner rid) = AddressLength d}"

text \<open>The owner written in a key made by \<open>makeKey\<close>: the value of its first part.\<close>

definition key_owner :: "Key \<Rightarrow> bytes" where
  "key_owner k = (case KeyParts k of [] \<Rightarrow> [] | kp # _ \<Rightarrow> kp_Value kp)"

text \<open>A concrete setting of the external functions and a concrete input.\<close>

definition wit_deps :: "(unit, bytes) ledger_deps" where
  "wit_deps =
     \<lparr>keyToRegisterId = (\<lambda>k. case KeyParts k of
          [a, b, c] \<Rightarrow> Inr \<lparr>Owner = kp_Value a, Controller = kp_Value b, r_Key = kp_Value c\<rparr>
        | _ \<Rightarrow> Inl ()),
      RegisterSize = (\<lambda>a c k v. int (length a + length k + length v)),
      BytesToAddress = (\<lambda>b. b),
      AddressLength = 8,
      KeyPartOwner = 0, KeyPartController = 1, KeyPartKey = 2,
      Uint64ToBinary = (\<lambda>w. map (\<lambda>i. ucast (drop_bit (8 * (7 - i)) w)) [0..<8])\<rparr>"

definition wit_owner :: bytes where
  "wit_owner = [1, 2, 3, 4, 5, 6, 7, 8]"

definition wit_payload :: "Payload list" where
  "wit_payload =
     [\<lparr>p_Key = \<lparr>KeyParts = [\<lparr>kp_Type = 0, kp_Value = [1, 2, 3, 4, 5, 6, 7, 8]\<rparr>,
                              \<lparr>kp_Type = 1, kp_Value = []\<rparr>,
                              \<lparr>kp_Type = 2, kp_Value = [9]\<rparr>]\<rparr>,
       p_Value = [1, 1]\<rparr>,
      \<lparr>p_Key = \<lparr>KeyParts = [\<lparr>kp_Type = 0, kp_Value = []\<rparr>,
                              \<lparr>kp_Type = 1, kp_Value = []\<rparr>,
                              \<lparr>kp_Type = 2, kp_Value = [7]\<rparr>]\<rparr>,
       p_Value = [5]\<rparr>,
      \<lparr>p_Key = \<lparr>KeyParts = [\<lparr>kp_Type = 0, kp_Value = [1, 2, 3, 4, 5, 6, 7, 8]\<rparr>,
                              \<lparr>kp_Type = 1, kp_Value = []\<rparr>,
                              \<lparr>kp_Type = 2, kp_Value = [10]\<rparr>]\<rparr>,
       p_Value = [3]\<rparr>]"

text \<open>
  The payload that the migration adds for the owner of the input: its key has the owner,
  an empty controller and the ASCII bytes of \<open>storage_used\<close>; its value is 49, the sizes
  11 and 10 of the owner's two registers and 28 for the new register itself.
\<close>

definition wit_added :: Payload where
  "wit_added =
     \<lparr>p_Key = \<lparr>KeyParts = [\<lparr>kp_Type = 0, kp_Value = [1, 2, 3, 4, 5, 6, 7, 8]\<rparr>,
                             \<lparr>kp_Type = 1, kp_Value = []\<rparr>,
                             \<lparr>kp_Type = 2,
                              kp_Value = [115, 116, 111, 114, 97, 103, 101, 95, 117, 115, 101, 100]\<rparr>]\<rparr>,
      p_Value = [0, 0, 0, 0, 0, 0, 0, 49]\<rparr>"

definition wit_out :: "Payload list" where
  "wit_out = wit_payload @ [wit_added]"

section \<open>ChaCha20 based PRG (crypto/random/chacha20.go)\<close>

subsection \<open>The stream cipher of golang.org/x/crypto/chacha20\<close>

text \<open>
  The PRG drives a \<open>chacha20.Cipher\<close> of the Go extended library, which is not part of
  the repository. Of the cipher, the key stream block function and \<open>HChaCha20\<close> are taken
  as given: \<open>block key nonce n i\<close> is byte \<open>i\<close> of the 64-byte key stream block with block
  counter \<open>n\<close>. What the cipher's methods do with the 32-bit block counter, the buffer of
  unread key stream and the overflow flag is written out below as the library's portable
  implementation (\<open>chacha_generic.go\<close>, where the buffer holds one block) does it: once the
  last block of the counter's range has been generated the flag is set, and a call that
  needs another block panics (\<open>chacha20: counter overflow\<close>).
\<close>

record chacha_lib =
  block :: "bytes \<Rightarrow> bytes \<Rightarrow> 32 word \<Rightarrow> nat \<Rightarrow> byte"
  HChaCha20 :: "bytes \<Rightarrow> bytes \<Rightarrow> bytes"

definition KeySize :: nat where "KeySize = 32"
definition NonceSize :: nat where "NonceSize = 12"
definition NonceSizeX :: nat where "NonceSizeX = 24"
definition blockSize :: nat where "blockSize = 64"
definition bufSize :: nat where "bufSize = blockSize"

text \<open>The last \<open>c_len\<close> bytes of \<open>c_buf\<close> are key stream left over by the last call.\<close>

record Cipher =
  c_key :: bytes
  c_counter :: "32 word"
  c_nonce :: bytes
  c_buf :: bytes
  c_len :: nat
  c_overflow :: bool

datatype cipher_error = WrongKeySize | WrongNonceSize

definition NewUnauthenticatedCipher :: "chacha_lib \<Rightarrow> bytes \<Rightarrow> bytes \<Rightarrow> cipher_error + Cipher" where
  "NewUnauthenticatedCipher lib key nonce =
     (if length key \<noteq> KeySize then Inl WrongKeySize
      else if length nonce = NonceSizeX then
        Inr \<lparr>c_key = HChaCha20 lib key (take 16 nonce), c_counter = 0,
             c_nonce = replicate 4 0 @ take 8 (drop 16 nonce),
             c_buf = replicate bufSize 0, c_len = 0, c_overflow = False\<rparr>
      else if length nonce \<noteq> NonceSize then Inl WrongNonceSize
      else
        Inr \<lparr>c_key = key, c_counter = 0, c_nonce = nonce,
             c_buf = replicate bufSize 0, c_len = 0, c_overflow = False\<rparr>)"

definition keyStreamBlock :: "chacha_lib \<Rightarrow> Cipher \<Rightarrow> bytes" where
  "keyStreamBlock lib s = map (block lib (c_key s) (c_nonce s) (c_counter s)) [0..<blockSize]"

definition xorBytes :: "bytes \<Rightarrow> bytes \<Rightarrow> bytes" where
  "xorBytes src ks = map (\<lambda>(a, b). a XOR b) (zip src ks)"

text \<open>
  The loop of \<open>xorKeyStreamBlocksGeneric\<close>: one block of key stream per 64 bytes of
  \<open>src\<close>, the 32-bit counter incremented (and wrapping) after each.
\<close>

fun blocks_loop :: "chacha_lib \<Rightarrow> Cipher \<Rightarrow> nat \<Rightarrow> bytes \<Rightarrow> Cipher \<times> bytes" where
  "blocks_loop lib s 0 src = (s, [])"
| "blocks_loop lib s (Suc n) src =
     (let dst = xorBytes (take blockSize src) (keyStreamBlock lib s);
          (s', rest) = blocks_loop lib (s\<lparr>c_counter := c_counter s + 1\<rparr>) n (drop blockSize src)
      in (s', dst @ rest))"

text \<open>\<open>None\<close> is a panic of the library.\<close>

definition xorKeyStreamBlocksGeneric :: "chacha_lib \<Rightarrow> Cipher \<Rightarrow> bytes \<Rightarrow> (Cipher \<times> bytes) option" where
  "xorKeyStreamBlocksGeneric lib s src =
     (if length src mod blockSize \<noteq> 0 then None
      else Some (blocks_loop lib s (length src div blockSize) src))"

text \<open>
  \<open>XORKeyStream(dst, src)\<close> with \<open>dst\<close> of the length of \<open>src\<close>; the result is the new
  cipher state and what is written to \<open>dst\<close>. The branch of the library for a buffer of
  several blocks at the end of the counter's range cannot be taken with a buffer of one
  block (it needs \<open>counter + 1 > 2^32\<close>) and is left out.
\<close>

definition XORKeyStream :: "chacha_lib \<Rightarrow> Cipher \<Rightarrow> bytes \<Rightarrow> (Cipher \<times> bytes) option" where
  "XORKeyStream lib s src =
     (if length src = 0 then Some (s, [])
      else
        let keyStream =
              (if c_len s \<noteq> 0 then take (length src) (drop (bufSize - c_len s) (c_buf s)) else []);
            dst1 = xorBytes src keyStream;
            s1 = s\<lparr>c_len := c_len s - length keyStream\<rparr>;
            src1 = drop (length keyStream) src
        in if length src1 = 0 then Some (s1, dst1)
           else
             let numBlocks = (length src1 + blockSize - 1) div blockSize
             in if c_overflow s1 \<or> unat (c_counter s1) + numBlocks > 2 ^ 32 then None
                else
                  let s2 = (if unat (c_counter s1) + numBlocks = 2 ^ 32
                            then s1\<lparr>c_overflow := True\<rparr> else s1);
                      full = length src1 - length src1 mod bufSize
                  in case (if full > 0 then xorKeyStreamBlocksGeneric lib s2 (take full src1)
                           else Some (s2, [])) of
                       None \<Rightarrow> None
                     | Some (s3, dst2) \<Rightarrow>
                         let src2 = drop full src1
                         in if length src2 > 0 then
                              (case xorKeyStreamBlocksGeneric lib s3
                                      (src2 @ replicate (bufSize - length src2) 0) of
                                 None \<Rightarrow> None
                               | Some (s4, buf) \<Rightarrow>
                                   Some (s4\<lparr>c_buf := buf, c_len := bufSize - length src2\<rparr>,
                                         dst1 @ dst2 @ take (length src2) buf))
                            else Some (s3, dst1 @ dst2))"

definition SetCounter :: "Cipher \<Rightarrow> 32 word \<Rightarrow> Cipher option" where
  "SetCounter s counter =
     (let outputCounter = c_counter s - of_nat (c_len s div blockSize)
      in if c_overflow s \<or> counter < outputCounter then None
         else if counter < c_counter s
           then Some (s\<lparr>c_len := unat (c_counter s - counter) * blockSize\<rparr>)
           else Some (s\<lparr>c_counter := counter, c_len := 0\<rparr>))"

subsection \<open>encoding/binary, little endian\<close>

definition PutUint64 :: "64 word \<Rightarrow> bytes" where
  "PutUint64 v = map (\<lambda>i. ucast (drop_bit (8 * i) v)) [0..<8]"

text \<open>\<open>Uint64\<close> panics on fewer than 8 bytes.\<close>

definition Uint64 :: "bytes \<Rightarrow> 64 word option" where
  "Uint64 b =
     (if length b < 8 then None
      else Some (ucast (b ! 0) OR push_bit 8 (ucast (b ! 1)) OR push_bit 16 (ucast (b ! 2))
                 OR push_bit 24 (ucast (b ! 3)) OR push_bit 32 (ucast (b ! 4))
                 OR push_bit 40 (ucast (b ! 5)) OR push_bit 48 (ucast (b ! 6))
                 OR push_bit 56 (ucast (b ! 7))))"

subsection \<open>Slices and the memory behind them\<close>

text \<open>
  The PRG keeps the slices \<open>seed\<close> and \<open>customizer\<close> that its caller passes in, and
  \<open>State\<close> appends to the first of them. What \<open>append\<close> does depends on the capacity of
  the slice, and what it writes can be seen through every other slice of the same array.
  So the byte arrays that have been allocated are part of the model: a slice names one of
  them, the offset of its first element, its length and its capacity.
\<close>

record slice =
  sl_array :: nat
  sl_off :: nat
  sl_len :: nat
  sl_cap :: nat

type_synonym heap = "bytes list"

text \<open>Every slice of a running program lies within its array.\<close>

definition valid_slice :: "heap \<Rightarrow> slice \<Rightarrow> bool" where
  "valid_slice h s \<longleftrightarrow>
     sl_array s < length h \<and> sl_len s \<le> sl_cap s \<and>
     sl_off s + sl_cap s \<le> length (h ! sl_array s)"

text \<open>The elements of a slice.\<close>

definition load :: "heap \<Rightarrow> slice \<Rightarrow> bytes" where
  "load h s = take (sl_len s) (drop (sl_off s) (h ! sl_array s))"

text \<open>\<open>copy(s[i:], bs)\<close>, for \<open>bs\<close> that fits.\<close>

definition store :: "heap \<Rightarrow> slice \<Rightarrow> nat \<Rightarrow> bytes \<Rightarrow> heap" where
  "store h s i bs =
     (let a = h ! sl_array s; pos = sl_off s + i
      in h[sl_array s := take pos a @ bs @ drop (pos + length bs) a])"

text \<open>\<open>make([]byte, n)\<close>: a new array of \<open>n\<close> zero bytes.\<close>

definition make_bytes :: "heap \<Rightarrow> nat \<Rightarrow> heap \<times> slice" where
  "make_bytes h n =
     (h @ [replicate n 0], \<lparr>sl_array = length h, sl_off = 0, sl_len = n, sl_cap = n\<rparr>)"

text \<open>\<open>s[lo:hi]\<close>, which keeps the array and the capacity that is left after \<open>lo\<close>.\<close>

definition reslice :: "slice \<Rightarrow> nat \<Rightarrow> nat \<Rightarrow> slice" where
  "reslice s lo hi =
     \<lparr>sl_array = sl_array s, sl_off = sl_off s + lo, sl_len = hi - lo, sl_cap = sl_cap s - lo\<rparr>"

text \<open>
  \<open>append(s, bs...)\<close>. When the capacity of \<open>s\<close> suffices, the bytes are written into the
  array of \<open>s\<close>, behind its elements, and the result is a longer slice of the same array.
  Otherwise the elements are copied to a new array. How much larger than needed the runtime
  makes the new array is its own matter: \<open>grow\<close>, applied to the old capacity and the
  length needed, is the proposal of the runtime.
\<close>

definition go_append :: "(nat \<Rightarrow> nat \<Rightarrow> nat) \<Rightarrow> heap \<Rightarrow> slice \<Rightarrow> bytes \<Rightarrow> heap \<times> slice" where
  "go_append grow h s bs =
     (let n = sl_len s + length bs
      in if n \<le> sl_cap s then (store h s (sl_len s) bs, s\<lparr>sl_len := n\<rparr>)
         else
           let newcap = max n (grow (sl_cap s) n)
           in (h @ [load h s @ bs @ replicate (newcap - n) 0],
               \<lparr>sl_array = length h, sl_off = 0, sl_len = n, sl_cap = newcap\<rparr>))"

subsection \<open>The PRG\<close>

text \<open>
  A \<open>chachaPRG\<close> holds a \<open>chachaCore\<close> and the generic methods of the package, which read
  from the core and keep no state of their own; the model works on the core. The cipher
  copies key and nonce into its own state; the core keeps the two slices as they are.
\<close>

record chachaCore =
  cipher :: Cipher
  bytesCounter :: "64 word"
  seed :: slice
  customizer :: slice

datatype prg_error =
    SeedLength nat
  | CustomizerLength
  | InstanceCreation cipher_error
  | StateLength nat
  | Panic

definition Chacha20SeedLen :: nat where "Chacha20SeedLen = KeySize"
definition Chacha20CustomizerMaxLen :: nat where "Chacha20CustomizerMaxLen = NonceSize"

definition NewChacha20 :: "chacha_lib \<Rightarrow> heap \<Rightarrow> slice \<Rightarrow> slice \<Rightarrow> prg_error + chachaCore" where
  "NewChacha20 lib h sd cust =
     (if sl_len sd \<noteq> Chacha20SeedLen then Inl (SeedLength (sl_len sd))
      else if sl_len cust \<noteq> Chacha20CustomizerMaxLen then Inl CustomizerLength
      else case NewUnauthenticatedCipher lib (load h sd) (load h cust) of
             Inl err \<Rightarrow> Inl (InstanceCreation err)
           | Inr chacha \<Rightarrow>
               Inr \<lparr>cipher = chacha, bytesCounter = 0, seed = sd, customizer = cust\<rparr>)"

text \<open>
  \<open>Read\<close> fills a buffer of \<open>n\<close> bytes: it zeroes the buffer, encrypts it in place and
  adds \<open>n\<close> to the byte counter. The result is the new state and what the buffer holds
  afterwards; \<open>None\<close> is the panic of the cipher at the end of its key stream. Neither
  depends on where the buffer lies.
\<close>

definition Read :: "chacha_lib \<Rightarrow> chachaCore \<Rightarrow> nat \<Rightarrow> (chachaCore \<times> bytes) option" where
  "Read lib c n =
     (case XORKeyStream lib (cipher c) (replicate n 0) of
        None \<Rightarrow> None
      | Some (s, buffer) \<Rightarrow>
          Some (c\<lparr>cipher := s, bytesCounter := bytesCounter c + of_nat n\<rparr>, buffer))"

text \<open>
  \<open>State\<close>, statement by statement; the result is the memory it leaves and the slice it
  returns.
\<close>

definition State :: "(nat \<Rightarrow> nat \<Rightarrow> nat) \<Rightarrow> heap \<Rightarrow> chachaCore \<Rightarrow> heap \<times> slice" where
  "State grow h c =
     (let (h1, bytes1) = go_append grow h (seed c) (load h (customizer c));
          (h2, counter) = make_bytes h1 8;
          h3 = store h2 counter 0 (PutUint64 (bytesCounter c))
      in go_append grow h3 bytes1 (load h3 counter))"

text \<open>
  \<open>Restore\<close>. The three slice expressions cannot fail once the length has been found to
  be 52. The restored core keeps slices of the caller's array.
\<close>

definition Restore :: "chacha_lib \<Rightarrow> heap \<Rightarrow> slice \<Rightarrow> prg_error + (heap \<times> chachaCore)" where
  "Restore lib h stateBytes =
     (let expectedLen = KeySize + NonceSize + 8
      in if sl_len stateBytes \<noteq> expectedLen then Inl (StateLength (sl_len stateBytes))
         else
           let sd = reslice stateBytes 0 KeySize;
               streamID = reslice stateBytes KeySize (KeySize + NonceSize)
           in case Uint64 (load h (reslice stateBytes (KeySize + NonceSize) (sl_len stateBytes))) of
                None \<Rightarrow> Inl Panic
              | Some counter \<Rightarrow>
                  (case NewUnauthenticatedCipher lib (load h sd) (load h streamID) of
                     Inl err \<Rightarrow> Inl (InstanceCreation err)
                   | Inr chacha \<Rightarrow>
                       let bytesPerBlock = 64;
                           blockCount = (ucast (counter div bytesPerBlock) :: 32 word);
                           remainingBytes = counter mod bytesPerBlock
                       in (case SetCounter chacha blockCount of
                             None \<Rightarrow> Inl Panic
                           | Some chacha1 \<Rightarrow>
                               let (h1, remainderStream) = make_bytes h (unat remainingBytes)
                               in (case XORKeyStream lib chacha1 (load h1 remainderStream) of
                                     None \<Rightarrow> Inl Panic
                                   | Some (chacha2, dst) \<Rightarrow>
                                       Inr (store h1 remainderStream 0 dst,
                                            \<lparr>cipher = chacha2, bytesCounter = counter,
                                             seed = sd, customizer = streamID\<rparr>)))))"

text \<open>
  A PRG in use: \<open>reads\<close> is the state after successive calls of \<open>Read\<close> with buffers of
  the given lengths, \<open>read_stream\<close> what these calls write to their buffers.
\<close>

fun reads :: "chacha_lib \<Rightarrow> chachaCore \<Rightarrow> nat list \<Rightarrow> chachaCore option" where
  "reads lib c [] = Some c"
| "reads lib c (n # ns) =
     (case Read lib c n of None \<Rightarrow> None | Some (c', buffer) \<Rightarrow> reads lib c' ns)"

fun read_stream :: "chacha_lib \<Rightarrow> chachaCore \<Rightarrow> nat list \<Rightarrow> bytes list option" where
  "read_stream lib c [] = Some []"
| "read_stream lib c (n # ns) =
     (case Read lib c n of
        None \<Rightarrow> None
      | Some (c', buffer) \<Rightarrow>
          (case read_stream lib c' ns of None \<Rightarrow> None | Some bs \<Rightarrow> Some (buffer # bs)))"

text \<open>
  A concrete block function, which depends on the key, the nonce and the block counter,
  and a concrete memory: a seed and a customizer in arrays of their own, each without
  spare capacity, and a runtime that doubles the capacity when an array has to grow.
\<close>

definition wit_lib :: chacha_lib where
  "wit_lib = \<lparr>block = (\<lambda>key nonce n i. key ! 0 + nonce ! 0 + ucast n + of_nat i),
              HChaCha20 = (\<lambda>key nonce. key)\<rparr>"

definition wit_seed :: bytes where
  "wit_seed = replicate 32 7"

definition wit_customizer :: bytes where
  "wit_customizer = replicate 12 3"

definition wit_heap :: heap where
  "wit_heap = [wit_seed, wit_customizer]"

definition wit_seed_slice :: slice where
  "wit_seed_slice = \<lparr>sl_array = 0, sl_off = 0, sl_len = 32, sl_cap = 32\<rparr>"

definition wit_customizer_slice :: slice where
  "wit_customizer_slice = \<lparr>sl_array = 1, sl_off = 0, sl_len = 12, sl_cap = 12\<rparr>"

definition wit_grow :: "nat \<Rightarrow> nat \<Rightarrow> nat" where
  "wit_grow c n = 2 * c"
subsection \<open>Notions used in the proofs about the PRG\<close>

text \<open>
  What \<open>XORKeyStream\<close> does once the buffered key stream is used up, in closed form.
\<close>

definition refill :: "chacha_lib \<Rightarrow> Cipher \<Rightarrow> bytes \<Rightarrow> (Cipher \<times> bytes) option" where
  "refill lib u src =
     (let m = length src - c_len u;
          src1 = drop (c_len u) src;
          dst1 = xorBytes src (drop (64 - c_len u) (c_buf u));
          ov = (unat (c_counter u) + (m + 63) div 64 = 2 ^ 32);
          dst2 = snd (blocks_loop lib u (m div 64) (take (m - m mod 64) src1));
          buf = snd (blocks_loop lib (u\<lparr>c_counter := c_counter u + of_nat (m div 64)\<rparr>) 1
                       (drop (m - m mod 64) src1 @ replicate (64 - m mod 64) 0))
      in if c_overflow u \<or> unat (c_counter u) + (m + 63) div 64 > 2 ^ 32 then None
         else if m mod 64 = 0
           then Some (u\<lparr>c_counter := c_counter u + of_nat (m div 64), c_len := 0, c_overflow := ov\<rparr>,
                      dst1 @ dst2)
           else Some (u\<lparr>c_counter := c_counter u + of_nat (m div 64) + 1, c_buf := buf,
                        c_len := 64 - m mod 64, c_overflow := ov\<rparr>,
                      dst1 @ dst2 @ take (m mod 64) buf))"

text \<open>
  Two cipher states from which the same key stream follows: they agree on everything but
  the part of the buffer that has been read already.
\<close>

definition stream_equiv :: "Cipher \<Rightarrow> Cipher \<Rightarrow> bool" where
  "stream_equiv s t \<longleftrightarrow>
     c_key s = c_key t \<and> c_nonce s = c_nonce t \<and> c_counter s = c_counter t \<and>
     c_overflow s = c_overflow t \<and> c_len s = c_len t \<and> c_len s \<le> 64 \<and>
     length (c_buf s) = 64 \<and> length (c_buf t) = 64 \<and>
     drop (64 - c_len s) (c_buf s) = drop (64 - c_len t) (c_buf t)"

text \<open>
  The state of a cipher made from \<open>key\<close> and \<open>nonce\<close> after \<open>B\<close> bytes of key stream.
\<close>

definition canon :: "chacha_lib \<Rightarrow> bytes \<Rightarrow> bytes \<Rightarrow> nat \<Rightarrow> Cipher \<Rightarrow> bool" where
  "canon lib key nonce B s \<longleftrightarrow>
     c_key s = key \<and> c_nonce s = nonce \<and> length (c_buf s) = 64 \<and> B \<le> 2 ^ 38 \<and>
     c_counter s = of_nat ((B + 63) div 64) \<and>
     (c_overflow s \<longleftrightarrow> (B + 63) div 64 = 2 ^ 32) \<and>
     c_len s = (64 - B mod 64) mod 64 \<and>
     drop (64 - c_len s) (c_buf s)
       = drop (64 - c_len s) (map (block lib key nonce (of_nat (B div 64))) [0..<64])"

text \<open>
  The state of a PRG made by \<open>NewChacha20\<close> from a seed and a customizer that held \<open>key\<close>
  and \<open>nonce\<close>, after \<open>B\<close> bytes of output.
\<close>

definition prg_inv :: "chacha_lib \<Rightarrow> bytes \<Rightarrow> bytes \<Rightarrow> nat \<Rightarrow> chachaCore \<Rightarrow> bool" where
  "prg_inv lib key nonce B p \<longleftrightarrow>
     canon lib key nonce B (cipher p) \<and> bytesCounter p = of_nat B \<and>
     length key = 32 \<and> length nonce = 12"

text \<open>
  The PRG made from the concrete seed and customizer, and the same PRG after all of its
  \<open>2^38\<close> bytes of key stream have been read. Then the memory and the slice that \<open>State\<close>
  returns for the latter: the first \<open>append\<close> has moved the seed to a new array of
  capacity 64, the second has written the counter into that array. Last, what \<open>Restore\<close>
  makes of this state.
\<close>

definition wit_p0 :: chachaCore where
  "wit_p0 = \<lparr>cipher = \<lparr>c_key = wit_seed, c_counter = 0, c_nonce = wit_customizer,
                        c_buf = replicate 64 0, c_len = 0, c_overflow = False\<rparr>,
             bytesCounter = 0, seed = wit_seed_slice, customizer = wit_customizer_slice\<rparr>"

definition cex_p :: chachaCore where
  "cex_p = \<lparr>cipher = \<lparr>c_key = wit_seed, c_counter = 0, c_nonce = wit_customizer,
                       c_buf = replicate 64 0, c_len = 0, c_overflow = True\<rparr>,
            bytesCounter = 2 ^ 38, seed = wit_seed_slice, customizer = wit_customizer_slice\<rparr>"

definition cex_heap :: heap where
  "cex_heap =
     [wit_seed, wit_customizer,
      wit_seed @ wit_customizer @ [0, 0, 0, 0, 64, 0, 0, 0] @ replicate 12 0,
      [0, 0, 0, 0, 64, 0, 0, 0]]"

definition cex_state :: slice where
  "cex_state = \<lparr>sl_array = 2, sl_off = 0, sl_len = 52, sl_cap = 64\<rparr>"

definition cex_q :: chachaCore where
  "cex_q = \<lparr>cipher = \<lparr>c_key = wit_seed, c_counter = 0, c_nonce = wit_customizer,
                       c_buf = replicate 64 0, c_len = 0, c_overflow = False\<rparr>,
            bytesCounter = 2 ^ 38,
            seed = \<lparr>sl_array = 2, sl_off = 0, sl_len = 32, sl_cap = 64\<rparr>,
            customizer = \<lparr>sl_array = 2, sl_off = 32, sl_len = 12, sl_cap = 32\<rparr>\<rparr>"

text \<open>
  Two PRGs whose seeds are the two halves of one array of 64 bytes, as a caller gets them
  who cuts both seeds from one block of random bytes. The first seed has the second one
  in its spare capacity.
\<close>

definition shared_heap :: heap where
  "shared_heap = [replicate 32 1 @ replicate 32 2, replicate 12 5, replicate 12 6]"

definition shared_seedA :: slice where
  "shared_seedA = \<lparr>sl_array = 0, sl_off = 0, sl_len = 32, sl_cap = 64\<rparr>"

definition shared_seedB :: slice where
  "shared_seedB = \<lparr>sl_array = 0, sl_off = 32, sl_len = 32, sl_cap = 32\<rparr>"

definition shared_custA :: slice where
  "shared_custA = \<lparr>sl_array = 1, sl_off = 0, sl_len = 12, sl_cap = 12\<rparr>"

definition shared_custB :: slice where
  "shared_custB = \<lparr>sl_array = 2, sl_off = 0, sl_len = 12, sl_cap = 12\<rparr>"

definition shared_pA :: chachaCore where
  "shared_pA = \<lparr>cipher = \<lparr>c_key = replicate 32 1, c_counter = 0, c_nonce = replicate 12 5,
                           c_buf = replicate 64 0, c_len = 0, c_overflow = False\<rparr>,
                bytesCounter = 0, seed = shared_seedA, customizer = shared_custA\<rparr>"

definition shared_pB :: chachaCore where
  "shared_pB = \<lparr>cipher = \<lparr>c_key = replicate 32 2, c_counter = 0, c_nonce = replicate 12 6,
                           c_buf = replicate 64 0, c_len = 0, c_overflow = False\<rparr>,
                bytesCounter = 0, seed = shared_seedB, customizer = shared_custB\<rparr>"

text \<open>The memory after \<open>State\<close> of the first PRG, which has written into the array.\<close>

definition shared_heap1 :: heap where
  "shared_heap1 =
     [replicate 32 1 @ replicate 12 5 @ replicate 8 0 @ replicate 12 2,
      replicate 12 5, replicate 12 6, replicate 8 0]"

definition shared_stateA :: slice where
  "shared_stateA = \<lparr>sl_array = 0, sl_off = 0, sl_len = 52, sl_cap = 64\<rparr>"

text \<open>The memory after \<open>State\<close> of the second PRG, then, and the PRG restored from it.\<close>

definition shared_heap2 :: heap where
  "shared_heap2 =
     [replicate 32 1 @ replicate 12 5 @ replicate 8 0 @ replicate 12 2,
      replicate 12 5, replicate 12 6, replicate 8 0,
      (replicate 12 5 @ replicate 8 0 @ replicate 12 2) @ replicate 12 6 @ replicate 8 0
        @ replicate 12 0,
      replicate 8 0]"

definition shared_stateB :: slice where
  "shared_stateB = \<lparr>sl_array = 4, sl_off = 0, sl_len = 52, sl_cap = 64\<rparr>"

definition shared_qB :: chachaCore where
  "shared_qB = \<lparr>cipher = \<lparr>c_key = replicate 12 5 @ replicate 8 0 @ replicate 12 2,
                           c_counter = 0, c_nonce = replicate 12 6,
                           c_buf = replicate 64 0, c_len = 0, c_overflow = False\<rparr>,
                bytesCounter = 0,
                seed = \<lparr>sl_array = 4, sl_off = 0, sl_len = 32, sl_cap = 64\<rparr>,
                customizer = \<lparr>sl_array = 4, sl_off = 32, sl_len = 12, sl_cap = 32\<rparr>\<rparr>"
section \<open>Sparse Merkle trie: proofs of membership (storage/ledger/mtrie)\<close>

text \<open>
  Of the package \<open>storage/ledger/mtrie\<close> the sources hold one test only
  (\<open>proof_test.go\<close>); the trie, the forest and the proofs themselves are described in the
  specification, sections 3 and 4. The definitions of this section follow those words.
  The hash primitive is external to the package: it is the argument \<open>hsh\<close> of every
  function that hashes.
\<close>

type_synonym digest = bytes
type_synonym key = bytes
type_synonym regvalue = bytes

text \<open>
  Modelled from the spec: the default digests of section 4.1, which the missing trie code
  computes: \<open>default(0) = H("")\<close>, \<open>default(d) = H(default(d-1) || default(d-1))\<close>.
\<close>

fun default_digest :: "(bytes \<Rightarrow> digest) \<Rightarrow> nat \<Rightarrow> digest" where
  "default_digest hsh 0 = hsh []"
| "default_digest hsh (Suc d) = hsh (default_digest hsh d @ default_digest hsh d)"

text \<open>
  Modelled from the spec: the key of section 3, a bit string, given as bytes; the missing
  code reads its bits from the first byte on, the highest bit of a byte first. A key is
  valid for a trie of depth \<open>H\<close> when its length in bits is \<open>H\<close>.
\<close>

definition byte_bits :: "byte \<Rightarrow> bool list" where
  "byte_bits b = map (\<lambda>i. bit b (7 - i)) [0..<8]"

definition key_bits :: "key \<Rightarrow> bool list" where
  "key_bits k = concat (map byte_bits k)"

definition valid_key :: "nat \<Rightarrow> key \<Rightarrow> bool" where
  "valid_key H k \<longleftrightarrow> length (key_bits k) = H"

text \<open>
  Modelled from the spec: the \<open>TrieNode\<close> of section 3 with its three variants. A leaf
  holds a key and a value. An interior node holds a left and a right child, each of which
  may be absent (an empty subtree). An extension holds a path segment and a single child:
  it stands for the run of interior nodes along the segment that have no other child.
\<close>

datatype node =
    Leaf key regvalue
  | Interior "node option" "node option"
  | Extension "bool list" node

text \<open>
  Modelled from the spec: how two digests are combined on the way from a leaf to the root
  (section 4.3): \<open>H(current || sibling)\<close> if the bit routes the current node as the left
  child (bit 0), \<open>H(sibling || current)\<close> otherwise.
\<close>

definition combine :: "(bytes \<Rightarrow> digest) \<Rightarrow> bool \<Rightarrow> digest \<Rightarrow> digest \<Rightarrow> digest" where
  "combine hsh b current sibling =
     (if b then hsh (sibling @ current) else hsh (current @ sibling))"

text \<open>
  Modelled from the spec: the digest a run of interior nodes gives to the digest of its
  single child, all siblings on the run being empty. The bits are those of the run from
  its lowest node upwards; \<open>h\<close> is the height of the child.
\<close>

fun run_digest :: "(bytes \<Rightarrow> digest) \<Rightarrow> nat \<Rightarrow> bool list \<Rightarrow> digest \<Rightarrow> digest" where
  "run_digest hsh h [] d = d"
| "run_digest hsh h (b # bs) d =
     run_digest hsh (Suc h) bs (combine hsh b d (default_digest hsh h))"

text \<open>
  Modelled from the spec: the digest of a node (section 3). A leaf has \<open>H(key || value)\<close>,
  an interior node \<open>H(leftDigest || rightDigest)\<close> with the default digest for an absent
  child, and an extension the digest of the run of interior nodes it stands for. \<open>h\<close> is
  the height of the node: the number of bit levels below it.
\<close>

fun node_digest :: "(bytes \<Rightarrow> digest) \<Rightarrow> nat \<Rightarrow> node \<Rightarrow> digest" where
  "node_digest hsh h (Leaf k v) = hsh (k @ v)"
| "node_digest hsh h (Interior l r) =
     hsh ((case l of None \<Rightarrow> default_digest hsh (h - 1) | Some n \<Rightarrow> node_digest hsh (h - 1) n) @
          (case r of None \<Rightarrow> default_digest hsh (h - 1) | Some n \<Rightarrow> node_digest hsh (h - 1) n))"
| "node_digest hsh h (Extension path c) =
     run_digest hsh (h - length path) (rev path) (node_digest hsh (h - length path) c)"

definition subtree_digest :: "(bytes \<Rightarrow> digest) \<Rightarrow> nat \<Rightarrow> node option \<Rightarrow> digest" where
  "subtree_digest hsh h t =
     (case t of None \<Rightarrow> default_digest hsh h | Some n \<Rightarrow> node_digest hsh h n)"

text \<open>
  Modelled from the spec: the \<open>Trie\<close> of section 3, a root node (absent when no key is
  set) and the depth \<open>H\<close>; \<open>RootHash\<close> of section 6 is the digest of the root, the default
  digest of the depth when there is no root node.
\<close>

record Trie =
  root :: "node option"
  depth :: nat

definition RootHash :: "(bytes \<Rightarrow> digest) \<Rightarrow> Trie \<Rightarrow> digest" where
  "RootHash hsh t = subtree_digest hsh (depth t) (root t)"

text \<open>
  Modelled from the spec: the tries that the missing update code builds have every leaf
  at depth \<open>H\<close>, at the end of the path that the bits of its key spell, and every
  extension inside the depth. \<open>pre\<close> is the path from the root to the node.
\<close>

fun wf_node :: "nat \<Rightarrow> bool list \<Rightarrow> node \<Rightarrow> bool" where
  "wf_node h pre (Leaf k v) \<longleftrightarrow> h = 0 \<and> key_bits k = pre"
| "wf_node h pre (Interior l r) \<longleftrightarrow>
     0 < h \<and>
     (case l of None \<Rightarrow> True | Some n \<Rightarrow> wf_node (h - 1) (pre @ [False]) n) \<and>
     (case r of None \<Rightarrow> True | Some n \<Rightarrow> wf_node (h - 1) (pre @ [True]) n)"
| "wf_node h pre (Extension path c) \<longleftrightarrow>
     length path \<le> h \<and> wf_node (h - length path) (pre @ path) c"

definition wf_trie :: "Trie \<Rightarrow> bool" where
  "wf_trie t \<longleftrightarrow> (case root t of None \<Rightarrow> True | Some n \<Rightarrow> wf_node (depth t) [] n)"

text \<open>
  Modelled from the spec: the value of a key in a trie, found by following the bits of
  the key from the root; \<open>None\<close> when the key is not set.
\<close>

fun get_node :: "bool list \<Rightarrow> node option \<Rightarrow> regvalue option" where
  "get_node bs None = None"
| "get_node bs (Some (Leaf k v)) = Some v"
| "get_node [] (Some (Interior l r)) = None"
| "get_node (b # bs) (Some (Interior l r)) = get_node bs (if b then r else l)"
| "get_node bs (Some (Extension [] c)) = get_node bs (Some c)"
| "get_node [] (Some (Extension (p # ps) c)) = None"
| "get_node (b # bs) (Some (Extension (p # ps) c)) =
     (if b = p then get_node bs (Some (Extension ps c)) else None)"

definition get_value :: "Trie \<Rightarrow> key \<Rightarrow> regvalue option" where
  "get_value t k = get_node (key_bits k) (root t)"

text \<open>
  Modelled from the spec: a \<open>Proof\<close> (section 3): the key, its value or the mark of
  non-membership (\<open>None\<close>), the sibling digests from the leaf up to the root that are not
  the default digest, and one flag per level, from the leaf up, that says whether the
  sibling of that level is the default digest. A \<open>BatchProof\<close> is a sequence of proofs
  and the depth of the trie.
\<close>

record Proof =
  pf_key :: key
  pf_value :: "regvalue option"
  pf_siblings :: "digest list"
  pf_flags :: "bool list"

record BatchProof =
  bp_proofs :: "Proof list"
  bp_depth :: nat

text \<open>
  Modelled from the spec: the generation of section 4.3. The walk goes from the root
  along the bits of the key and records at each level the digest of the sibling subtree
  not taken, \<open>None\<close> standing for the flagged default digest; it ends at a leaf, whose
  value it records, or in an empty subtree, where it marks non-membership. The result
  lists the siblings from the root down. \<open>h\<close> is the height of the subtree.
\<close>

fun walk ::
  "(bytes \<Rightarrow> digest) \<Rightarrow> nat \<Rightarrow> bool list \<Rightarrow> node option \<Rightarrow> regvalue option \<times> digest option list" where
  "walk hsh h bs None = (None, replicate h None)"
| "walk hsh h bs (Some (Leaf k v)) = (Some v, [])"
| "walk hsh h [] (Some (Interior l r)) = (None, [])"
| "walk hsh h (b # bs) (Some (Interior l r)) =
     (let (v, ss) = walk hsh (h - 1) bs (if b then r else l);
          sibling = (case (if b then l else r) of
                       None \<Rightarrow> None | Some n \<Rightarrow> Some (node_digest hsh (h - 1) n))
      in (v, sibling # ss))"
| "walk hsh h bs (Some (Extension [] c)) = walk hsh h bs (Some c)"
| "walk hsh h [] (Some (Extension (p # ps) c)) = (None, [])"
| "walk hsh h (b # bs) (Some (Extension (p # ps) c)) =
     (if b = p then
        (let (v, ss) = walk hsh (h - 1) bs (Some (Extension ps c)) in (v, None # ss))
      else (None, Some (node_digest hsh (h - 1) (Extension ps c)) # replicate (h - 1) None))"

definition prove_key :: "(bytes \<Rightarrow> digest) \<Rightarrow> Trie \<Rightarrow> key \<Rightarrow> Proof" where
  "prove_key hsh t k =
     (let (v, ss) = walk hsh (depth t) (key_bits k) (root t)
      in \<lparr>pf_key = k, pf_value = v,
          pf_siblings = rev (concat (map (\<lambda>s. case s of None \<Rightarrow> [] | Some d \<Rightarrow> [d]) ss)),
          pf_flags = rev (map (\<lambda>s. s = None) ss)\<rparr>)"

text \<open>
  Modelled from the spec: \<open>Forest.Proofs\<close> (section 4.2). It resolves the trie of the
  root digest and fails with \<open>TrieNotFoundError\<close> if the root is unknown; then it makes
  one proof per key. How the forest resolves a root (its cache and the node store) is the
  argument \<open>GetTrie\<close>.
\<close>

datatype forest_error = TrieNotFoundError

definition Proofs ::
  "(bytes \<Rightarrow> digest) \<Rightarrow> (digest \<Rightarrow> forest_error + Trie) \<Rightarrow> digest \<Rightarrow> key list
   \<Rightarrow> forest_error + BatchProof" where
  "Proofs hsh GetTrie rootHash keys =
     (case GetTrie rootHash of
        Inl err \<Rightarrow> Inl err
      | Inr t \<Rightarrow> Inr \<lparr>bp_proofs = map (prove_key hsh t) keys, bp_depth = depth t\<rparr>)"

text \<open>
  Modelled from the spec: the verification of section 4.3. \<open>recompute\<close> starts from
  \<open>H(key || value)\<close>, or from the default digest of a leaf for a claim of non-membership,
  and combines the current digest level by level with the sibling of that level, in the
  order that the bit of the key for that level dictates. \<open>None\<close> is a proof whose flags
  and siblings do not fit the depth. The proof is valid iff the digest computed last is
  the claimed root.
\<close>

fun climb ::
  "(bytes \<Rightarrow> digest) \<Rightarrow> nat \<Rightarrow> bool list \<Rightarrow> bool list \<Rightarrow> digest list \<Rightarrow> digest \<Rightarrow> digest option" where
  "climb hsh j [] [] [] current = Some current"
| "climb hsh j (b # bs) (True # flags) siblings current =
     climb hsh (Suc j) bs flags siblings (combine hsh b current (default_digest hsh j))"
| "climb hsh j (b # bs) (False # flags) (s # siblings) current =
     climb hsh (Suc j) bs flags siblings (combine hsh b current s)"
| "climb hsh j bs flags siblings current = None"

definition recompute :: "(bytes \<Rightarrow> digest) \<Rightarrow> Proof \<Rightarrow> digest option" where
  "recompute hsh p =
     climb hsh 0 (rev (key_bits (pf_key p))) (pf_flags p) (pf_siblings p)
       (case pf_value p of
          Some v \<Rightarrow> hsh (pf_key p @ v)
        | None \<Rightarrow> default_digest hsh 0)"

definition VerifyProof :: "(bytes \<Rightarrow> digest) \<Rightarrow> Proof \<Rightarrow> digest \<Rightarrow> bool" where
  "VerifyProof hsh p rootHash \<longleftrightarrow> recompute hsh p = Some rootHash"

subsection \<open>Notions used in the proofs about the trie\<close>

text \<open>The digest that the verification of a proof for \<open>k\<close> with value \<open>v\<close> starts from.\<close>

definition leaf_start :: "(bytes \<Rightarrow> digest) \<Rightarrow> key \<Rightarrow> regvalue option \<Rightarrow> digest" where
  "leaf_start hsh k v = (case v of Some x \<Rightarrow> hsh (k @ x) | None \<Rightarrow> default_digest hsh 0)"

text \<open>The flags and the digests of a proof, from the siblings that the walk lists.\<close>

definition sib_flags :: "digest option list \<Rightarrow> bool list" where
  "sib_flags ss = rev (map (\<lambda>s. s = None) ss)"

definition sib_digests :: "digest option list \<Rightarrow> digest list" where
  "sib_digests ss = rev (concat (map (\<lambda>s. case s of None \<Rightarrow> [] | Some d \<Rightarrow> [d]) ss))"

text \<open>Well-formedness of a subtree that may be empty.\<close>

definition wf_sub :: "nat \<Rightarrow> bool list \<Rightarrow> node option \<Rightarrow> bool" where
  "wf_sub h pre t = (case t of None \<Rightarrow> True | Some n \<Rightarrow> wf_node h pre n)"

text \<open>
  A concrete hash function, a trie of depth 8 that holds the value \<open>"A"\<close> under the key
  \<open>0x01\<close>, and a forest that knows this trie.
\<close>

definition wit_hsh :: "bytes \<Rightarrow> digest" where
  "wit_hsh bs = [of_nat (length bs), sum_list bs]"

definition wit_trie :: Trie where
  "wit_trie = \<lparr>root = Some (Extension [False, False, False, False, False, False, False]
                               (Interior None (Some (Leaf [1] [65])))),
               depth = 8\<rparr>"

definition wit_GetTrie :: "digest \<Rightarrow> forest_error + Trie" where
  "wit_GetTrie d = (if d = RootHash wit_hsh wit_trie then Inr wit_trie else Inl TrieNotFoundError)"

section \<open>Properties of the storage fees migration\<close>

lemma process_loop_payload:
  "process_loop d ps i used np = Inr (used', np') \<Longrightarrow> i + length ps \<le> length np \<Longrightarrow>
   np' = take i np @ ps @ drop (i + length ps) np"
proof (induction ps arbitrary: i used np)
  case Nil
  then show ?case by simp
next
  case (Cons p ps)
  from Cons.prems(1) obtain u1 where
    u1: "process d p used = Inr u1" and
    rest: "process_loop d ps (Suc i) u1 (np[i := p]) = Inr (used', np')"
    by (auto split: sum.splits)
  from Cons.prems(2) have len: "Suc i + length ps \<le> length (np[i := p])" and i: "i < length np"
    by simp_all
  from Cons.IH [OF rest len]
  have "np' = take (Suc i) (np[i := p]) @ ps @ drop (Suc i + length ps) (np[i := p])" .
  moreover have "take (Suc i) (np[i := p]) = take i np @ [p]"
    using i by (simp add: take_Suc_conv_app_nth)
  moreover have "drop (Suc i + length ps) (np[i := p]) = drop (Suc i + length ps) np"
    by simp
  ultimately show ?case by simp
qed

lemma process_dom:
  "process d p used = Inr used' \<Longrightarrow>
   dom used' = dom used \<union>
     {Owner rid | rid. keyToRegisterId d (p_Key p) = Inr rid \<and> length (Owner rid) = AddressLength d}"
  by (auto simp: process_def Let_def split: sum.splits if_splits)

lemma process_loop_dom:
  "process_loop d ps i used np = Inr (used', np') \<Longrightarrow>
   dom used' = dom used \<union> address_owners d ps"
proof (induction ps arbitrary: i used np)
  case Nil
  then show ?case by (simp add: address_owners_def)
next
  case (Cons p ps)
  from Cons.prems obtain u1 where
    u1: "process d p used = Inr u1" and
    rest: "process_loop d ps (Suc i) u1 (np[i := p]) = Inr (used', np')"
    by (auto split: sum.splits)
  have "address_owners d (p # ps) =
        {Owner rid | rid. keyToRegisterId d (p_Key p) = Inr rid \<and> length (Owner rid) = AddressLength d}
        \<union> address_owners d ps"
    by (auto simp: address_owners_def)
  with Cons.IH [OF rest] process_dom [OF u1] show ?case by auto
qed

lemma append_loop_eq:
  "append_loop d used ks np =
   np @ map (\<lambda>s. \<lparr>p_Key = makeKey d s (go_string ''storage_used''),
                  p_Value = Uint64ToBinary d
                    (map_get used s + word_of_int (RegisterSize d (BytesToAddress d s) False
                       (go_string ''storage_used'') (replicate 8 0)))\<rparr>) ks"
  by (induction ks arbitrary: np) (simp_all add: Let_def)

lemma key_owner_makeKey: "key_owner (makeKey d s k) = s"
  by (simp add: key_owner_def makeKey_def)

lemma go_string_Nil: "go_string [] = []"
  by (simp add: go_string_def)

lemma go_string_storage_used:
  "go_string ''storage_used'' = [115, 116, 111, 114, 97, 103, 101, 95, 117, 115, 101, 100]"
  by (simp add: go_string_def)

lemma wit_run:
  "StorageFeesMigration wit_deps (\<lambda>m. [wit_owner]) wit_payload = Inr wit_out"
  by (simp add: StorageFeesMigration_def wit_payload_def wit_deps_def wit_owner_def wit_out_def
      wit_added_def makeKey_def process_def registerSize_def map_get_def zeroPayload_def
      go_string_storage_used go_string_Nil Let_def upt_rec)

lemma wit_order:
  "\<forall>used. storageUsed_after wit_deps wit_payload = Inr used \<longrightarrow>
          range_order used ((\<lambda>m. [wit_owner]) used)"
  by (simp add: storageUsed_after_def wit_payload_def wit_deps_def wit_owner_def makeKey_def
      process_def registerSize_def map_get_def zeroPayload_def go_string_Nil Let_def
      range_order_def)

text \<open>
  C10. When \<open>StorageFeesMigration\<close> succeeds, the first \<open>len(payload)\<close> entries of its
  result are the input payloads, unchanged and in their order. What follows them is one
  payload per owner of the input whose length is the address length, none twice. The key
  of each has three parts: the owner under the type \<open>KeyPartOwner\<close>, the empty controller
  under the type \<open>KeyPartController\<close>, and the name \<open>storage_used\<close> under the type
  \<open>KeyPartKey\<close>. The order in which the map range visits the owners is any enumeration of
  the map's keys without repetition.
\<close>

theorem StorageFeesMigration_frame:
  assumes run: "StorageFeesMigration d order payload = Inr out"
    and ord: "\<forall>used. storageUsed_after d payload = Inr used \<longrightarrow> range_order used (order used)"
  shows "take (length payload) out = payload \<and>
         distinct (map (\<lambda>q. key_owner (p_Key q)) (drop (length payload) out)) \<and>
         set (map (\<lambda>q. key_owner (p_Key q)) (drop (length payload) out)) = address_owners d payload \<and>
         (\<forall>q \<in> set (drop (length payload) out).
            KeyParts (p_Key q) =
              [\<lparr>kp_Type = KeyPartOwner d, kp_Value = key_owner (p_Key q)\<rparr>,
               \<lparr>kp_Type = KeyPartController d, kp_Value = []\<rparr>,
               \<lparr>kp_Type = KeyPartKey d, kp_Value = go_string ''storage_used''\<rparr>])"
proof -
  from run obtain used np where
    loop: "process_loop d payload 0 Map.empty (replicate (length payload) zeroPayload) = Inr (used, np)"
    and out: "out = append_loop d used (order used) np"
    by (auto simp: StorageFeesMigration_def split: sum.splits prod.splits)
  from process_loop_payload [OF loop] have np: "np = payload" by simp
  from loop have "storageUsed_after d payload = Inr used"
    by (simp add: storageUsed_after_def)
  with ord have ro: "distinct (order used)" "set (order used) = dom used"
    by (auto simp: range_order_def)
  from process_loop_dom [OF loop] have dom: "dom used = address_owners d payload" by simp
  have owners: "map (\<lambda>q. key_owner (p_Key q)) (drop (length payload) out) = order used"
    unfolding out np append_loop_eq by (simp add: o_def key_owner_makeKey)
  have keys: "\<forall>q \<in> set (drop (length payload) out).
            KeyParts (p_Key q) =
              [\<lparr>kp_Type = KeyPartOwner d, kp_Value = key_owner (p_Key q)\<rparr>,
               \<lparr>kp_Type = KeyPartController d, kp_Value = []\<rparr>,
               \<lparr>kp_Type = KeyPartKey d, kp_Value = go_string ''storage_used''\<rparr>]"
    unfolding out np append_loop_eq
    by (simp add: key_owner_def makeKey_def go_string_Nil)
  have front: "take (length payload) out = payload"
    unfolding out np append_loop_eq by simp
  from owners ro have once: "distinct (map (\<lambda>q. key_owner (p_Key q)) (drop (length payload) out))"
    by simp
  from owners ro dom
  have all: "set (map (\<lambda>q. key_owner (p_Key q)) (drop (length payload) out))
      = address_owners d payload"
    by simp
  from front once all keys show ?thesis by (intro conjI)
qed

theorem StorageFeesMigration_frame_witness:
  "StorageFeesMigration wit_deps (\<lambda>m. [wit_owner]) wit_payload = Inr wit_out \<and>
   take (length wit_payload) wit_out = wit_payload \<and>
   drop (length wit_payload) wit_out = [wit_added] \<and>
   distinct (map (\<lambda>q. key_owner (p_Key q)) (drop (length wit_payload) wit_out)) \<and>
   set (map (\<lambda>q. key_owner (p_Key q)) (drop (length wit_payload) wit_out))
     = address_owners wit_deps wit_payload \<and>
   address_owners wit_deps wit_payload = {[1, 2, 3, 4, 5, 6, 7, 8]} \<and>
   KeyParts (p_Key wit_added) =
     [\<lparr>kp_Type = KeyPartOwner wit_deps, kp_Value = [1, 2, 3, 4, 5, 6, 7, 8]\<rparr>,
      \<lparr>kp_Type = KeyPartController wit_deps, kp_Value = []\<rparr>,
      \<lparr>kp_Type = KeyPartKey wit_deps,
       kp_Value = [115, 116, 111, 114, 97, 103, 101, 95, 117, 115, 101, 100]\<rparr>]"
proof -
  note t = StorageFeesMigration_frame [OF wit_run wit_order]
  have d: "drop (length wit_payload) wit_out = [wit_added]"
    by (simp add: wit_out_def)
  from t have "set (map (\<lambda>q. key_owner (p_Key q)) (drop (length wit_payload) wit_out))
     = address_owners wit_deps wit_payload" by blast
  then have a: "address_owners wit_deps wit_payload = {[1, 2, 3, 4, 5, 6, 7, 8]}"
    unfolding d by (simp add: wit_added_def key_owner_def)
  from t have "KeyParts (p_Key wit_added) =
     [\<lparr>kp_Type = KeyPartOwner wit_deps, kp_Value = key_owner (p_Key wit_added)\<rparr>,
      \<lparr>kp_Type = KeyPartController wit_deps, kp_Value = []\<rparr>,
      \<lparr>kp_Type = KeyPartKey wit_deps, kp_Value = go_string ''storage_used''\<rparr>]"
    unfolding d by simp
  then have k: "KeyParts (p_Key wit_added) =
     [\<lparr>kp_Type = KeyPartOwner wit_deps, kp_Value = [1, 2, 3, 4, 5, 6, 7, 8]\<rparr>,
      \<lparr>kp_Type = KeyPartController wit_deps, kp_Value = []\<rparr>,
      \<lparr>kp_Type = KeyPartKey wit_deps,
       kp_Value = [115, 116, 111, 114, 97, 103, 101, 95, 117, 115, 101, 100]\<rparr>]"
    by (simp add: wit_added_def wit_deps_def key_owner_def go_string_storage_used)
  from t have f: "take (length wit_payload) wit_out = wit_payload" by blast
  from t have o: "distinct (map (\<lambda>q. key_owner (p_Key q)) (drop (length wit_payload) wit_out))"
    by blast
  from t have s: "set (map (\<lambda>q. key_owner (p_Key q)) (drop (length wit_payload) wit_out))
     = address_owners wit_deps wit_payload" by blast
  from wit_run f d o s a k show ?thesis by (intro conjI)
qed

section \<open>Properties of the ChaCha20 based PRG\<close>

lemma byte_of: "(ucast (ucast (w :: 64 word) :: 8 word) :: 64 word) = take_bit 8 w"
  by (rule bit_word_eqI) (auto simp: bit_simps)

lemma split8: "(w :: 64 word) = take_bit 8 w OR push_bit 8 (drop_bit 8 w)"
proof (rule bit_word_eqI)
  fix n assume n: "n < LENGTH(64)"
  show "bit w n \<longleftrightarrow> bit (take_bit 8 w OR push_bit 8 (drop_bit 8 w)) n"
  proof (cases "n < 8")
    case True
    then show ?thesis by (simp add: bit_simps)
  next
    case False
    then have "8 + (n - 8) = n" by simp
    with False n show ?thesis by (simp add: bit_simps)
  qed
qed

lemma split8': "take_bit 8 (w :: 64 word) OR push_bit 8 (drop_bit 8 w) = w"
  using split8 [of w] by simp

lemma drop56: "take_bit 8 (drop_bit 56 (w :: 64 word)) = drop_bit 56 w"
proof (rule bit_word_eqI)
  fix n assume "n < LENGTH(64)"
  have "bit w (56 + n) \<Longrightarrow> n < 8"
    using bit_imp_le_length [of w "56 + n"] by simp
  then show "bit (take_bit 8 (drop_bit 56 w)) n \<longleftrightarrow> bit (drop_bit 56 w) n"
    by (auto simp: bit_simps)
qed

lemma le_bytes_ident:
  "take_bit 8 (v :: 64 word) OR push_bit 8 (take_bit 8 (drop_bit 8 v))
     OR push_bit 16 (take_bit 8 (drop_bit 16 v)) OR push_bit 24 (take_bit 8 (drop_bit 24 v))
     OR push_bit 32 (take_bit 8 (drop_bit 32 v)) OR push_bit 40 (take_bit 8 (drop_bit 40 v))
     OR push_bit 48 (take_bit 8 (drop_bit 48 v)) OR push_bit 56 (take_bit 8 (drop_bit 56 v)) = v"
proof -
  have s: "\<And>k (w :: 64 word). push_bit k (take_bit 8 w) OR push_bit (k + 8) (drop_bit 8 w) = push_bit k w"
  proof -
    fix k and w :: "64 word"
    have "push_bit k (take_bit 8 w) OR push_bit (k + 8) (drop_bit 8 w)
          = push_bit k (take_bit 8 w OR push_bit 8 (drop_bit 8 w))"
      by (simp add: add.commute)
    then show "push_bit k (take_bit 8 w) OR push_bit (k + 8) (drop_bit 8 w) = push_bit k w"
      by (simp add: split8')
  qed
  have d: "\<And>k. drop_bit 8 (drop_bit k v) = drop_bit (k + 8) v"
    by (simp add: drop_bit_drop_bit add.commute)
  have "push_bit 48 (take_bit 8 (drop_bit 48 v)) OR push_bit 56 (take_bit 8 (drop_bit 56 v))
        = push_bit 48 (drop_bit 48 v)"
    using s [of 48 "drop_bit 48 v"] by (simp add: drop56 d)
  moreover have "push_bit 40 (take_bit 8 (drop_bit 40 v)) OR push_bit 48 (drop_bit 48 v) = push_bit 40 (drop_bit 40 v)"
    using s [of 40 "drop_bit 40 v"] by (simp add: d)
  moreover have "push_bit 32 (take_bit 8 (drop_bit 32 v)) OR push_bit 40 (drop_bit 40 v) = push_bit 32 (drop_bit 32 v)"
    using s [of 32 "drop_bit 32 v"] by (simp add: d)
  moreover have "push_bit 24 (take_bit 8 (drop_bit 24 v)) OR push_bit 32 (drop_bit 32 v) = push_bit 24 (drop_bit 24 v)"
    using s [of 24 "drop_bit 24 v"] by (simp add: d)
  moreover have "push_bit 16 (take_bit 8 (drop_bit 16 v)) OR push_bit 24 (drop_bit 24 v) = push_bit 16 (drop_bit 16 v)"
    using s [of 16 "drop_bit 16 v"] by (simp add: d)
  moreover have "push_bit 8 (take_bit 8 (drop_bit 8 v)) OR push_bit 16 (drop_bit 16 v) = push_bit 8 (drop_bit 8 v)"
    using s [of 8 "drop_bit 8 v"] by (simp add: d)
  ultimately show ?thesis
    by (simp add: or.assoc split8')
qed

lemma Uint64_PutUint64: "Uint64 (PutUint64 v) = Some v"
  by (simp add: Uint64_def PutUint64_def upt_rec byte_of le_bytes_ident)

lemma length_PutUint64: "length (PutUint64 v) = 8"
  by (simp add: PutUint64_def)

lemma blocks_loop_fst:
  "fst (blocks_loop lib s n src) = s\<lparr>c_counter := c_counter s + of_nat n\<rparr>"
  by (induction n arbitrary: s src) (simp_all add: case_prod_beta Let_def)

lemma xorBytes_zeros: "n \<le> length ks \<Longrightarrow> xorBytes (replicate n 0) ks = take n ks"
  by (rule nth_equalityI) (simp_all add: xorBytes_def)

lemma length_xorBytes: "length (xorBytes a b) = min (length a) (length b)"
  by (simp add: xorBytes_def)

lemma length_keyStreamBlock: "length (keyStreamBlock lib s) = 64"
  by (simp add: keyStreamBlock_def blockSize_def)

lemma blocks_loop_length:
  "n * 64 \<le> length src \<Longrightarrow> length (snd (blocks_loop lib s n src)) = n * 64"
  by (induction n arbitrary: s src)
     (simp_all add: case_prod_beta Let_def length_xorBytes length_keyStreamBlock blockSize_def)

lemma blocks_loop_one_zero:
  "blocks_loop lib s (Suc 0) (replicate 64 0) = (s\<lparr>c_counter := c_counter s + 1\<rparr>, keyStreamBlock lib s)"
  by (simp add: Let_def blockSize_def xorBytes_zeros length_keyStreamBlock)

lemma keyStreamBlock_cong:
  "c_key s = c_key t \<Longrightarrow> c_nonce s = c_nonce t \<Longrightarrow> c_counter s = c_counter t \<Longrightarrow>
   keyStreamBlock lib s = keyStreamBlock lib t"
  by (simp add: keyStreamBlock_def)

lemma blocks_loop_snd_cong:
  "c_key s = c_key t \<Longrightarrow> c_nonce s = c_nonce t \<Longrightarrow> c_counter s = c_counter t \<Longrightarrow>
   snd (blocks_loop lib s n src) = snd (blocks_loop lib t n src)"
proof (induction n arbitrary: s t src)
  case 0
  then show ?case by simp
next
  case (Suc n)
  have "snd (blocks_loop lib (s\<lparr>c_counter := c_counter s + 1\<rparr>) n (drop blockSize src))
      = snd (blocks_loop lib (t\<lparr>c_counter := c_counter t + 1\<rparr>) n (drop blockSize src))"
    using Suc.prems by (intro Suc.IH) simp_all
  with Suc.prems show ?case
    by (simp add: case_prod_beta Let_def keyStreamBlock_cong [of s t])
qed

lemma xorKeyStreamBlocksGeneric_eq:
  "length src mod 64 = 0 \<Longrightarrow>
   xorKeyStreamBlocksGeneric lib s src =
     Some (s\<lparr>c_counter := c_counter s + of_nat (length src div 64)\<rparr>,
           snd (blocks_loop lib s (length src div 64) src))"
  using blocks_loop_fst [of lib s "length src div 64" src]
  by (simp add: xorKeyStreamBlocksGeneric_def blockSize_def prod_eq_iff)

lemma XORKeyStream_drainG:
  assumes "src \<noteq> []" "length src \<le> c_len u" "c_len u \<le> 64" "length (c_buf u) = 64"
  shows "XORKeyStream lib u src
         = Some (u\<lparr>c_len := c_len u - length src\<rparr>,
                 xorBytes src (take (length src) (drop (64 - c_len u) (c_buf u))))"
  using assms
  by (simp add: XORKeyStream_def Let_def bufSize_def blockSize_def min_def)

lemma keyStreamBlock_upd [simp]:
  "keyStreamBlock lib (u\<lparr>c_len := l\<rparr>) = keyStreamBlock lib u"
  "keyStreamBlock lib (u\<lparr>c_overflow := b\<rparr>) = keyStreamBlock lib u"
  "keyStreamBlock lib (u\<lparr>c_buf := bf\<rparr>) = keyStreamBlock lib u"
  by (simp_all add: keyStreamBlock_def)

lemma blocks_loop_snd_upd [simp]:
  "snd (blocks_loop lib (u\<lparr>c_len := l\<rparr>) n src) = snd (blocks_loop lib u n src)"
  "snd (blocks_loop lib (u\<lparr>c_overflow := b\<rparr>) n src) = snd (blocks_loop lib u n src)"
  "snd (blocks_loop lib (u\<lparr>c_buf := bf\<rparr>) n src) = snd (blocks_loop lib u n src)"
  by (rule blocks_loop_snd_cong; simp)+

lemma overflow_upd: "\<not> c_overflow s \<Longrightarrow> (if b then s\<lparr>c_overflow := True\<rparr> else s) = s\<lparr>c_overflow := b\<rparr>"
  by simp

lemma XORKeyStream_refill_eq:
  assumes lt: "c_len u < length src" and le: "c_len u \<le> 64" and len: "length (c_buf u) = 64"
  shows "XORKeyStream lib u src = refill lib u src"
proof -
  define m where "m = length src - c_len u"
  define src1 where "src1 = drop (c_len u) src"
  have m: "0 < m" "length src1 = m" using lt by (simp_all add: m_def src1_def)
  have ne: "length src \<noteq> 0" using lt by auto
  have ks: "(if c_len u \<noteq> 0 then take (length src) (drop (bufSize - c_len u) (c_buf u)) else [])
            = drop (64 - c_len u) (c_buf u)"
    using lt le len by (simp add: bufSize_def blockSize_def)
  have lks: "length (drop (64 - c_len u) (c_buf u)) = c_len u"
    using le len by simp
  have full: "(m - m mod 64) mod 64 = 0" "(m - m mod 64) div 64 = m div 64"
    by (simp_all add: minus_mod_eq_mult_div)
  have lfull: "length (take (m - m mod 64) src1) = m - m mod 64"
    using m by simp
  have gen: "\<And>s2. (if 0 < m - m mod 64 then xorKeyStreamBlocksGeneric lib s2 (take (m - m mod 64) src1)
                 else Some (s2, []))
           = Some (s2\<lparr>c_counter := c_counter s2 + of_nat (m div 64)\<rparr>,
                   snd (blocks_loop lib s2 (m div 64) (take (m - m mod 64) src1)))"
  proof -
    fix s2 :: Cipher
    show "?thesis s2"
    proof (cases "0 < m - m mod 64")
      case True
      then show ?thesis
        using xorKeyStreamBlocksGeneric_eq [of "take (m - m mod 64) src1" lib s2] full lfull
        by simp
    next
      case False
      then have "m div 64 = 0" using full(2) by simp
      with False show ?thesis by simp
    qed
  qed
  have lsrc2: "length (drop (m - m mod 64) src1) = m mod 64"
    using m by simp
  have pad: "length (drop (m - m mod 64) src1 @ replicate (64 - m mod 64) 0) = 64"
    using lsrc2 mod_less_divisor [of 64 m] by simp
  have last: "\<And>s3. xorKeyStreamBlocksGeneric lib s3 (drop (m - m mod 64) src1 @ replicate (64 - m mod 64) 0)
        = Some (s3\<lparr>c_counter := c_counter s3 + 1\<rparr>,
                snd (blocks_loop lib s3 1 (drop (m - m mod 64) src1 @ replicate (64 - m mod 64) 0)))"
    using xorKeyStreamBlocksGeneric_eq [of "drop (m - m mod 64) src1 @ replicate (64 - m mod 64) 0" lib] pad
    by simp
  define nb where "nb = (m + 63) div 64"
  have nb: "(length src1 + blockSize - 1) div blockSize = nb"
    using m by (simp add: nb_def blockSize_def)
  have cnt: "c_counter (u\<lparr>c_len := c_len u - c_len u\<rparr>) = c_counter u"
            "c_overflow (u\<lparr>c_len := c_len u - c_len u\<rparr>) = c_overflow u"
    by simp_all
  have lsrc1: "length src1 \<noteq> 0" using m by simp
  show ?thesis
  proof (cases "c_overflow u \<or> unat (c_counter u) + nb > 2 ^ 32")
    case True
    then show ?thesis
      unfolding XORKeyStream_def refill_def Let_def ks lks m_def [symmetric] src1_def [symmetric]
        nb cnt nb_def [symmetric]
      using ne lsrc1 by (simp split del: if_split)
  next
    case False
    then have nov: "\<not> c_overflow (u\<lparr>c_len := c_len u - c_len u\<rparr>)" by simp
    note ov = overflow_upd [OF nov, of "unat (c_counter u) + nb = 2 ^ 32"]
    have blk: "\<And>l b n x. snd (blocks_loop lib (u\<lparr>c_len := l, c_overflow := b\<rparr>) n x)
                 = snd (blocks_loop lib u n x)"
      by (rule blocks_loop_snd_cong) simp_all
    have kb: "\<And>l b c x. snd (blocks_loop lib (u\<lparr>c_len := l, c_overflow := b, c_counter := c\<rparr>) 1 x)
                 = snd (blocks_loop lib (u\<lparr>c_counter := c\<rparr>) 1 x)"
      by (rule blocks_loop_snd_cong) simp_all
    show ?thesis
      unfolding XORKeyStream_def refill_def Let_def ks lks m_def [symmetric] src1_def [symmetric]
        nb cnt nb_def [symmetric]
      unfolding m(2) bufSize_def blockSize_def
      unfolding lsrc2 ov gen last
      using ne lsrc1 False m
      by (cases "m mod 64 = 0"; simp add: blk kb del: blocks_loop.simps One_nat_def)
  qed
qed

lemma length_blocks_one:
  "length x = 64 \<Longrightarrow> length (snd (blocks_loop lib u 1 x)) = 64"
  using blocks_loop_length [of 1 x lib u] by simp

lemma XORKeyStream_cong:
  assumes eq: "stream_equiv s t"
  shows "rel_option (\<lambda>(s', o1) (t', o2). stream_equiv s' t' \<and> o1 = o2)
           (XORKeyStream lib s src) (XORKeyStream lib t src)"
proof -
  from eq have f: "c_key s = c_key t" "c_nonce s = c_nonce t" "c_counter s = c_counter t"
    "c_overflow s = c_overflow t" "c_len s = c_len t" "c_len s \<le> 64" "c_len t \<le> 64"
    "length (c_buf s) = 64" "length (c_buf t) = 64"
    "drop (64 - c_len s) (c_buf s) = drop (64 - c_len t) (c_buf t)"
    by (auto simp: stream_equiv_def)
  consider "src = []" | "src \<noteq> []" "length src \<le> c_len s" | "c_len s < length src"
    by fastforce
  then show ?thesis
  proof cases
    case 1
    with eq show ?thesis by (simp add: XORKeyStream_def)
  next
    case 2
    have tl: "drop (64 - (c_len s - length src)) (c_buf s) = drop (64 - (c_len t - length src)) (c_buf t)"
    proof -
      have "64 - (c_len s - length src) = length src + (64 - c_len s)"
        using 2 f(6) by simp
      moreover have "64 - (c_len t - length src) = length src + (64 - c_len t)"
        using 2 f(5,7) by simp
      ultimately show ?thesis
        using f(10) by (simp only: drop_drop [symmetric])
    qed
    show ?thesis
      using 2 f tl
      by (simp add: XORKeyStream_drainG stream_equiv_def)
  next
    case 3
    define m where "m = length src - c_len s"
    have g: "c_key t = c_key s" "c_nonce t = c_nonce s" "c_counter t = c_counter s"
      "c_overflow t = c_overflow s" "c_len t = c_len s"
      "drop (64 - c_len s) (c_buf t) = drop (64 - c_len s) (c_buf s)"
      using f by simp_all
    have pad: "length (drop (m - m mod 64) (drop (c_len s) src) @ replicate (64 - m mod 64) (0::byte)) = 64"
      using 3 mod_less_divisor [of 64 m] by (simp add: m_def)
    have b1: "\<And>n x. snd (blocks_loop lib t n x) = snd (blocks_loop lib s n x)"
      using f by (intro blocks_loop_snd_cong) simp_all
    have b2: "\<And>c n x. snd (blocks_loop lib (t\<lparr>c_counter := c\<rparr>) n x)
                     = snd (blocks_loop lib (s\<lparr>c_counter := c\<rparr>) n x)"
      using f by (intro blocks_loop_snd_cong) simp_all
    have "XORKeyStream lib s src = refill lib s src" "XORKeyStream lib t src = refill lib t src"
      using 3 f by (simp_all add: XORKeyStream_refill_eq)
    moreover have "rel_option (\<lambda>(s', o1) (t', o2). stream_equiv s' t' \<and> o1 = o2)
                     (refill lib s src) (refill lib t src)"
      unfolding refill_def Let_def g b1 b2 m_def [symmetric]
      using f(6,8,9) length_blocks_one [OF pad]
      by (simp add: stream_equiv_def g del: blocks_loop.simps One_nat_def)
    ultimately show ?thesis by simp
  qed
qed

lemma canon_equiv: "canon lib key nonce B s \<Longrightarrow> canon lib key nonce B t \<Longrightarrow> stream_equiv s t"
  by (auto simp: canon_def stream_equiv_def)

lemma unat_counter: "C < 2 ^ 32 \<Longrightarrow> unat (of_nat C :: 32 word) = C"
  by (simp add: unat_of_nat)

lemma div64_add: "(64 * q + x) div 64 = q + x div (64::nat)" by simp
lemma mod64_add: "(64 * q + x) mod 64 = x mod (64::nat)" by simp
lemma div64_1: "64 \<le> x \<Longrightarrow> x < 128 \<Longrightarrow> x div 64 = (1::nat)"
  by (rule div_nat_eqI) simp_all

lemma q_bound: "64 * q + r \<le> (2::nat) ^ 38 \<Longrightarrow> 0 < r \<Longrightarrow> q < 2 ^ 32"
  by simp

lemma drain_bound: "64 * q + r \<le> (2::nat) ^ 38 \<Longrightarrow> 0 < r \<Longrightarrow> r < 64 \<Longrightarrow> n \<le> 64 - r \<Longrightarrow> 64 * q + r + n \<le> 2 ^ 38"
proof -
  assume h: "64 * q + r \<le> (2::nat) ^ 38" "0 < r" "r < 64" "n \<le> 64 - r"
  then have "q < 2 ^ 32" by (intro q_bound [of q r])
  then have "q < 4294967296" by simp
  moreover have "r + n \<le> 64" using h by simp
  moreover have "(2::nat) ^ 38 = 274877906944" by simp
  ultimately show ?thesis by linarith
qed

lemma drain_ceil: "0 < r \<Longrightarrow> r < 64 \<Longrightarrow> n \<le> 64 - r \<Longrightarrow> (64 * q + r + n + 63) div 64 = (64 * q + r + 63) div (64::nat)"
proof -
  assume h: "0 < r" "r < 64" "n \<le> 64 - r"
  have "(64 * q + (r + n + 63)) div 64 = q + 1"
    using h div64_add [of q "r + n + 63"] div64_1 [of "r + n + 63"] by simp
  moreover have "(64 * q + (r + 63)) div 64 = q + 1"
    using h div64_add [of q "r + 63"] div64_1 [of "r + 63"] by simp
  ultimately show ?thesis by (simp add: add.assoc)
qed

lemma drain_len: "0 < r \<Longrightarrow> r < 64 \<Longrightarrow> 0 < n \<Longrightarrow> n \<le> 64 - r \<Longrightarrow>
   64 - r - n = (64 - (64 * q + r + n) mod 64) mod (64::nat)"
proof -
  assume h: "0 < r" "r < 64" "0 < n" "n \<le> 64 - r"
  have m: "(64 * q + (r + n)) mod 64 = (r + n) mod 64" by (simp only: mod64_add)
  show ?thesis
  proof (cases "r + n = 64")
    case True
    with m h show ?thesis by (simp add: add.assoc)
  next
    case False
    with h have "r + n < 64" by simp
    with m h show ?thesis by (simp add: add.assoc)
  qed
qed

lemma drain_div: "0 < r \<Longrightarrow> r < 64 \<Longrightarrow> n < 64 - r \<Longrightarrow> (64 * q + r + n) div 64 = (64 * q + r) div (64::nat)"
proof -
  assume h: "0 < r" "r < 64" "n < 64 - r"
  have "(64 * q + (r + n)) div 64 = q" using h div64_add [of q "r + n"] by simp
  moreover have "(64 * q + r) div 64 = q" using h div64_add [of q r] by simp
  ultimately show ?thesis by (simp add: add.assoc)
qed

lemma len_canon: "r < 64 \<Longrightarrow> 64 * q + r + (64 - (64 * q + r) mod 64) mod 64 = 64 * ((64 * q + r + 63) div (64::nat))"
proof -
  assume h: "r < 64"
  have m: "(64 * q + r) mod 64 = r" using h by (simp only: mod64_add) simp
  show ?thesis
  proof (cases "r = 0")
    case True
    then show ?thesis by simp
  next
    case False
    then have "(64 * q + (r + 63)) div 64 = q + 1"
      using h div64_add [of q "r + 63"] div64_1 [of "r + 63"] by simp
    with False h m show ?thesis by (simp add: add.assoc)
  qed
qed

lemma ceil_mult: "(64 * C + m + 63) div 64 = C + (m + 63) div (64::nat)"
  using div64_add [of C "m + 63"] by (simp add: add.assoc)

lemma ceil0: "m mod 64 = 0 \<Longrightarrow> (m + 63) div 64 = m div (64::nat)"
proof -
  assume "m mod 64 = 0"
  then have "64 dvd m" by (simp add: mod_eq_0_iff_dvd)
  then obtain k where "m = 64 * k" by (rule dvdE)
  then show ?thesis using div64_add [of k 63] by simp
qed

lemma ceil1: "m mod 64 \<noteq> 0 \<Longrightarrow> (m + 63) div 64 = m div (64::nat) + 1"
proof -
  assume h: "m mod 64 \<noteq> 0"
  have "m = 64 * (m div 64) + m mod 64" by simp
  then have "m + 63 = 64 * (m div 64) + (m mod 64 + 63)" by simp
  then have "(m + 63) div 64 = m div 64 + (m mod 64 + 63) div 64"
    using div64_add [of "m div 64" "m mod 64 + 63"] by simp
  moreover have "(m mod 64 + 63) div 64 = 1"
    using h by (intro div64_1) (simp_all add: Suc_leI)
  ultimately show ?thesis by simp
qed

lemma bound38: "C + (m + 63) div 64 \<le> (2::nat) ^ 32 \<Longrightarrow> 64 * C + m \<le> 2 ^ 38"
proof -
  assume h: "C + (m + 63) div 64 \<le> (2::nat) ^ 32"
  have "m \<le> 64 * ((m + 63) div 64)"
  proof (cases "m mod 64 = 0")
    case True
    moreover have "m = 64 * (m div 64) + m mod 64" by simp
    ultimately have "m \<le> 64 * (m div 64)" by linarith
    with True show ?thesis by (simp add: ceil0)
  next
    case False
    have "m = 64 * (m div 64) + m mod 64" by simp
    moreover have "m mod 64 < 64" by simp
    ultimately have "m \<le> 64 * (m div 64) + 64" by linarith
    with False show ?thesis by (simp add: ceil1)
  qed
  with h show ?thesis by simp
qed

lemma pad_zeros: "replicate (m mod 64) (0::byte) @ replicate (64 - m mod 64) 0 = replicate 64 0"
proof -
  have "m mod 64 + (64 - m mod 64) = 64"
    using mod_less_divisor [of 64 m] by simp
  then show ?thesis by (simp add: replicate_add [symmetric])
qed

lemma canonI:
  "\<lbrakk>c_key s = key; c_nonce s = nonce; length (c_buf s) = 64; B \<le> 2 ^ 38;
    c_counter s = of_nat ((B + 63) div 64); c_overflow s = ((B + 63) div 64 = 2 ^ 32);
    c_len s = (64 - B mod 64) mod 64;
    drop (64 - c_len s) (c_buf s)
      = drop (64 - c_len s) (map (block lib key nonce (of_nat (B div 64))) [0..<64])\<rbrakk>
   \<Longrightarrow> canon lib key nonce B s"
  by (simp add: canon_def)

lemma canon_step:
  assumes c: "canon lib key nonce B s"
    and x: "XORKeyStream lib s (replicate n 0) = Some (s', out)"
  shows "canon lib key nonce (B + n) s'"
proof -
  obtain q r where B: "B = 64 * q + r" and r: "r < 64"
    by (metis mod_less_divisor mult_div_mod_eq zero_less_numeral)
  from c have f: "c_key s = key" "c_nonce s = nonce" "length (c_buf s) = 64" "B \<le> 2 ^ 38"
    "c_counter s = of_nat ((B + 63) div 64)" "c_overflow s \<longleftrightarrow> (B + 63) div 64 = 2 ^ 32"
    "c_len s = (64 - B mod 64) mod 64"
    "drop (64 - c_len s) (c_buf s)
       = drop (64 - c_len s) (map (block lib key nonce (of_nat (B div 64))) [0..<64])"
    by (auto simp: canon_def)
  have le: "c_len s \<le> 64" using f(7) by simp
  have Bm: "B mod 64 = r" using B r mod64_add [of q r] by simp
  consider "n = 0" | "0 < n" "n \<le> c_len s" | "c_len s < n" by fastforce
  then show ?thesis
  proof cases
    case 1
    with x c show ?thesis by (simp add: XORKeyStream_def)
  next
    case 2
    have s': "s' = s\<lparr>c_len := c_len s - n\<rparr>"
      using x 2 le f(3) XORKeyStream_drainG [of "replicate n 0" s lib] by simp
    have r0: "0 < r" using 2 f(7) Bm by (cases "r = 0") simp_all
    then have cl: "c_len s = 64 - r" using f(7) Bm r by simp
    have n: "n \<le> 64 - r" using 2 cl by simp
    have a1: "B + n \<le> 2 ^ 38" using drain_bound [of q r n] f(4) r0 r n B by simp
    have a2: "(B + n + 63) div 64 = (B + 63) div 64" using drain_ceil [of r n q] r0 r n B by simp
    have a3: "c_len s - n = (64 - (B + n) mod 64) mod 64"
      using drain_len [of r n q] r0 r n 2 B cl by simp
    have a4: "drop (64 - (c_len s - n)) (c_buf s)
        = drop (64 - (c_len s - n)) (map (block lib key nonce (of_nat ((B + n) div 64))) [0..<64])"
    proof (cases "n = c_len s")
      case True
      then show ?thesis using f(3) by simp
    next
      case False
      then have "n < 64 - r" using n cl by simp
      then have d: "(B + n) div 64 = B div 64" using drain_div [of r n q] r0 r B by simp
      have "64 - (c_len s - n) = n + (64 - c_len s)" using 2 le by simp
      then show ?thesis
        unfolding d using f(8) by (simp only: drop_drop [symmetric])
    qed
    show ?thesis
    proof (rule canonI)
      show "c_key s' = key" "c_nonce s' = nonce" "length (c_buf s') = 64"
        using f(1-3) by (simp_all add: s')
      show "B + n \<le> 2 ^ 38" by (rule a1)
      show "c_counter s' = of_nat ((B + n + 63) div 64)"
        unfolding a2 using f(5) by (simp add: s')
      show "c_overflow s' = ((B + n + 63) div 64 = 2 ^ 32)"
        unfolding a2 using f(6) by (simp add: s')
      show "c_len s' = (64 - (B + n) mod 64) mod 64"
        unfolding a3 [symmetric] by (simp add: s')
      show "drop (64 - c_len s') (c_buf s')
            = drop (64 - c_len s') (map (block lib key nonce (of_nat ((B + n) div 64))) [0..<64])"
        using a4 by (simp add: s')
    qed
  next
    case 3
    define m where "m = n - c_len s"
    have m: "0 < m" "n = c_len s + m" using 3 by (simp_all add: m_def)
    have rf: "refill lib s (replicate n 0) = Some (s', out)"
      using x 3 le f(3) XORKeyStream_refill_eq [of s "replicate n 0" lib] by simp
    define C where "C = (B + 63) div 64"
    have BC: "B + c_len s = 64 * C" using len_canon [of r q] f(7) B r unfolding C_def by simp
    have nov: "\<not> c_overflow s" and bound: "unat (c_counter s) + (m + 63) div 64 \<le> 2 ^ 32"
      using rf by (auto simp: refill_def Let_def m_def split: if_splits)
    have "C \<le> 2 ^ 32"
    proof -
      have "64 * C = B + c_len s" using BC by simp
      also have "\<dots> \<le> 2 ^ 38 + 63"
      proof -
        have "c_len s \<le> 63" using f(7) by (cases "B mod 64 = 0") simp_all
        with f(4) show ?thesis by simp
      qed
      finally show ?thesis by simp
    qed
    with nov f(6) have Clt: "C < 2 ^ 32" unfolding C_def by simp
    have uc: "unat (c_counter s) = C" using Clt f(5) by (simp add: C_def unat_counter)
    have Bn: "B + n = 64 * C + m" using BC m by simp
    have a1: "B + n \<le> 2 ^ 38" using bound38 [of C m] bound uc Bn by simp
    have a2: "(B + n + 63) div 64 = C + (m + 63) div 64" using ceil_mult [of C m] Bn by simp
    have a3: "(B + n) mod 64 = m mod 64" "(B + n) div 64 = C + m div 64"
      using Bn mod64_add [of C m] div64_add [of C m] by simp_all
    show ?thesis
    proof (cases "m mod 64 = 0")
      case True
      then have s': "s' = s\<lparr>c_counter := c_counter s + of_nat (m div 64), c_len := 0,
                             c_overflow := (unat (c_counter s) + (m + 63) div 64 = 2 ^ 32)\<rparr>"
        using rf nov bound by (simp add: refill_def Let_def m_def split: if_splits)
      have c0: "(m + 63) div 64 = m div 64" using True by (rule ceil0)
      show ?thesis
      proof (rule canonI)
        show "c_key s' = key" "c_nonce s' = nonce" "length (c_buf s') = 64"
          using f(1-3) by (simp_all add: s')
        show "B + n \<le> 2 ^ 38" by (rule a1)
        show "c_counter s' = of_nat ((B + n + 63) div 64)"
          unfolding a2 c0 using f(5) by (simp add: s' C_def)
        show "c_overflow s' = ((B + n + 63) div 64 = 2 ^ 32)"
          unfolding a2 uc [symmetric] by (simp add: s')
        show "c_len s' = (64 - (B + n) mod 64) mod 64"
          unfolding a3 using True by (simp add: s')
        show "drop (64 - c_len s') (c_buf s')
              = drop (64 - c_len s') (map (block lib key nonce (of_nat ((B + n) div 64))) [0..<64])"
          using f(3) by (simp add: s')
      qed
    next
      case False
      then have s': "s' = s\<lparr>c_counter := c_counter s + of_nat (m div 64) + 1,
         c_buf := snd (blocks_loop lib (s\<lparr>c_counter := c_counter s + of_nat (m div 64)\<rparr>) 1
                       (drop (m - m mod 64) (drop (c_len s) (replicate n 0)) @ replicate (64 - m mod 64) 0)),
         c_len := 64 - m mod 64,
         c_overflow := (unat (c_counter s) + (m + 63) div 64 = 2 ^ 32)\<rparr>"
        using rf nov bound by (simp add: refill_def Let_def m_def split: if_splits)
      have z: "drop (m - m mod 64) (drop (c_len s) (replicate n (0::byte))) @ replicate (64 - m mod 64) 0
               = replicate 64 0"
        using pad_zeros [of m] m by (simp add: minus_mod_eq_mult_div [symmetric])
      have c1: "(m + 63) div 64 = m div 64 + 1" using False by (rule ceil1)
      have l: "(64 - m mod 64) mod 64 = 64 - m mod 64" using False by simp
      have buf: "c_buf s' = map (block lib key nonce (of_nat ((B + n) div 64))) [0..<64]"
        unfolding s' z a3
        using f(1,2,5)
        by (simp add: blocks_loop_one_zero [unfolded One_nat_def [symmetric]] C_def
            keyStreamBlock_def blockSize_def del: blocks_loop.simps One_nat_def)
      show ?thesis
      proof (rule canonI)
        show "c_key s' = key" "c_nonce s' = nonce"
          using f(1-2) by (simp_all add: s')
        show "length (c_buf s') = 64" unfolding buf by simp
        show "B + n \<le> 2 ^ 38" by (rule a1)
        show "c_counter s' = of_nat ((B + n + 63) div 64)"
          unfolding a2 c1 using f(5) by (simp add: s' C_def)
        show "c_overflow s' = ((B + n + 63) div 64 = 2 ^ 32)"
          unfolding a2 uc [symmetric] by (simp add: s')
        show "c_len s' = (64 - (B + n) mod 64) mod 64"
          unfolding a3 l by (simp add: s')
        show "drop (64 - c_len s') (c_buf s')
              = drop (64 - c_len s') (map (block lib key nonce (of_nat ((B + n) div 64))) [0..<64])"
          unfolding buf by simp
      qed
    qed
  qed
qed

lemma bound38_conv: "64 * C + m \<le> (2::nat) ^ 38 \<Longrightarrow> C + (m + 63) div 64 \<le> 2 ^ 32"
proof -
  assume "64 * C + m \<le> (2::nat) ^ 38"
  then have "64 * C + m + 63 \<le> 2 ^ 38 + 63" by simp
  then have "(64 * C + m + 63) div 64 \<le> (2 ^ 38 + 63) div 64" by (rule div_le_mono)
  then show ?thesis by (simp add: ceil_mult)
qed

lemma canon_no_panic:
  assumes c: "canon lib key nonce B s" and b: "B + n \<le> 2 ^ 38"
  shows "\<exists>s' out. XORKeyStream lib s (replicate n 0) = Some (s', out)"
proof -
  obtain q r where B: "B = 64 * q + r" and r: "r < 64"
    by (metis mod_less_divisor mult_div_mod_eq zero_less_numeral)
  from c have f: "length (c_buf s) = 64"
    "c_counter s = of_nat ((B + 63) div 64)" "c_overflow s \<longleftrightarrow> (B + 63) div 64 = 2 ^ 32"
    "c_len s = (64 - B mod 64) mod 64"
    by (auto simp: canon_def)
  have le: "c_len s \<le> 64" using f(4) by simp
  consider "n = 0" | "0 < n" "n \<le> c_len s" | "c_len s < n" by fastforce
  then show ?thesis
  proof cases
    case 1
    then show ?thesis by (simp add: XORKeyStream_def)
  next
    case 2
    then show ?thesis
      using le f(1) XORKeyStream_drainG [of "replicate n 0" s lib] by simp
  next
    case 3
    define m where "m = n - c_len s"
    define C where "C = (B + 63) div 64"
    have m: "0 < m" "n = c_len s + m" using 3 by (simp_all add: m_def)
    have BC: "B + c_len s = 64 * C" using len_canon [of r q] f(4) B r unfolding C_def by simp
    have Bn: "64 * C + m \<le> 2 ^ 38" using BC m b by simp
    then have bd: "C + (m + 63) div 64 \<le> 2 ^ 32" by (rule bound38_conv)
    moreover have "0 < (m + 63) div 64" using m(1) by (simp add: div_greater_zero_iff)
    ultimately have Clt: "C < 2 ^ 32" by linarith
    then have nov: "\<not> c_overflow s" using f(3) by (simp add: C_def)
    have uc: "unat (c_counter s) = C" using Clt f(2) by (simp add: C_def unat_counter)
    have "XORKeyStream lib s (replicate n 0) = refill lib s (replicate n 0)"
      using 3 le f(1) XORKeyStream_refill_eq [of s "replicate n 0" lib] by simp
    moreover have "\<exists>s' out. refill lib s (replicate n 0) = Some (s', out)"
      using nov bd uc by (simp add: refill_def Let_def m_def [symmetric])
    ultimately show ?thesis by simp
  qed
qed

lemma canon_fresh:
  "NewUnauthenticatedCipher lib key nonce = Inr s \<Longrightarrow> length nonce = 12 \<Longrightarrow>
   canon lib key nonce 0 s"
  by (auto simp: NewUnauthenticatedCipher_def canon_def NonceSizeX_def NonceSize_def
      bufSize_def blockSize_def split: if_splits)

subsection \<open>Slices\<close>

lemma load_reslice:
  "hi \<le> sl_len s \<Longrightarrow> load h (reslice s lo hi) = take (hi - lo) (drop lo (load h s))"
  by (simp add: load_def reslice_def drop_take add.commute min_def)

lemma go_append_load:
  assumes "valid_slice h s" and "go_append grow h s bs = (h', s')"
  shows "load h' s' = load h s @ bs" and "valid_slice h' s'" and "sl_len s' = sl_len s + length bs"
  using assms
  by (auto simp: go_append_def Let_def store_def load_def valid_slice_def nth_append drop_take
      split: if_splits)

lemma make_bytes_load:
  assumes "make_bytes h n = (h', c)"
  shows "valid_slice h' c" and "load h' c = replicate n 0" and "sl_array c = length h"
    and "sl_len c = n"
    and "valid_slice h s \<Longrightarrow> valid_slice h' s \<and> load h' s = load h s"
  using assms
  by (auto simp: make_bytes_def load_def valid_slice_def nth_append)

lemma store_other:
  assumes "sl_array s \<noteq> sl_array c"
  shows "load (store h c i bs) s = load h s"
    and "valid_slice h s \<Longrightarrow> valid_slice (store h c i bs) s"
  using assms by (auto simp: store_def load_def valid_slice_def Let_def)

lemma store_whole:
  assumes "valid_slice h c" and "sl_len c = length bs"
  shows "load (store h c 0 bs) c = bs"
  using assms by (auto simp: store_def load_def valid_slice_def Let_def)

subsection \<open>State and Restore\<close>

text \<open>
  Whatever the capacity of the seed, the slice that \<open>State\<close> returns holds the seed, the
  customizer and the counter as the memory has them when \<open>State\<close> is called.
\<close>

lemma State_load:
  assumes v: "valid_slice h (seed c)" and st: "State grow h c = (h', sb)"
  shows "load h' sb = load h (seed c) @ load h (customizer c) @ PutUint64 (bytesCounter c)"
    and "sl_len sb = sl_len (seed c) + length (load h (customizer c)) + 8"
proof -
  obtain h1 b1 where a1: "go_append grow h (seed c) (load h (customizer c)) = (h1, b1)"
    by (cases "go_append grow h (seed c) (load h (customizer c))")
  obtain h2 cn where mk: "make_bytes h1 8 = (h2, cn)"
    by (cases "make_bytes h1 8")
  define h3 where "h3 = store h2 cn 0 (PutUint64 (bytesCounter c))"
  from st a1 mk have a2: "go_append grow h3 b1 (load h3 cn) = (h', sb)"
    by (simp add: State_def h3_def Let_def)
  note g1 = go_append_load [OF v a1]
  note m = make_bytes_load [OF mk]
  from m(5) [OF g1(2)] have b2: "valid_slice h2 b1" "load h2 b1 = load h1 b1" by simp_all
  from g1(2) m(3) have ne: "sl_array b1 \<noteq> sl_array cn"
    by (simp add: valid_slice_def)
  from store_other [OF ne] b2 have b3: "valid_slice h3 b1" "load h3 b1 = load h1 b1"
    by (simp_all add: h3_def)
  have c3: "load h3 cn = PutUint64 (bytesCounter c)"
    unfolding h3_def using m(1,4) by (intro store_whole) (simp_all add: PutUint64_def)
  note g2 = go_append_load [OF b3(1) a2]
  show "load h' sb = load h (seed c) @ load h (customizer c) @ PutUint64 (bytesCounter c)"
    using g2(1) b3(2) g1(1) c3 by simp
  show "sl_len sb = sl_len (seed c) + length (load h (customizer c)) + 8"
    using g2(3) g1(3) c3 by (simp add: PutUint64_def)
qed

lemma prg_inv_new:
  assumes "NewChacha20 lib h sd cust = Inr p"
  shows "prg_inv lib (load h sd) (load h cust) 0 p" and "seed p = sd" and "customizer p = cust"
proof -
  from assms obtain s where
    l: "sl_len sd = 32" "sl_len cust = 12"
    and s: "NewUnauthenticatedCipher lib (load h sd) (load h cust) = Inr s"
    and p: "p = \<lparr>cipher = s, bytesCounter = 0, seed = sd, customizer = cust\<rparr>"
    by (auto simp: NewChacha20_def Chacha20SeedLen_def Chacha20CustomizerMaxLen_def
        KeySize_def NonceSize_def split: if_splits sum.splits)
  have "length (load h cust) \<le> 12"
    using l(2) by (simp add: load_def)
  with s have n: "length (load h sd) = 32" "length (load h cust) = 12"
    by (auto simp: NewUnauthenticatedCipher_def KeySize_def NonceSize_def NonceSizeX_def
        split: if_splits)
  from canon_fresh [OF s n(2)] n p
  show "prg_inv lib (load h sd) (load h cust) 0 p"
    by (simp add: prg_inv_def)
  from p show "seed p = sd" "customizer p = cust" by simp_all
qed

lemma prg_inv_Read:
  "prg_inv lib key nonce B p \<Longrightarrow> Read lib p n = Some (p', out) \<Longrightarrow>
   prg_inv lib key nonce (B + n) p' \<and> seed p' = seed p \<and> customizer p' = customizer p"
  by (auto simp: Read_def prg_inv_def canon_step split: option.splits)

lemma prg_inv_reads:
  "prg_inv lib key nonce B p \<Longrightarrow> reads lib p ns = Some p' \<Longrightarrow>
   prg_inv lib key nonce (B + sum_list ns) p' \<and> seed p' = seed p \<and> customizer p' = customizer p"
proof (induction ns arbitrary: B p)
  case Nil
  then show ?case by simp
next
  case (Cons n ns)
  from Cons.prems(2) obtain p1 out where
    r: "Read lib p n = Some (p1, out)" and rest: "reads lib p1 ns = Some p'"
    by (auto split: option.splits)
  note s = prg_inv_Read [OF Cons.prems(1) r]
  from s have i1: "prg_inv lib key nonce (B + n) p1" by simp
  from Cons.IH [OF i1 rest] s
  show ?case by (simp add: add.assoc)
qed

lemma read_stream_equiv:
  "stream_equiv (cipher p) (cipher q) \<Longrightarrow> read_stream lib p ns = read_stream lib q ns"
proof (induction ns arbitrary: p q)
  case Nil
  then show ?case by simp
next
  case (Cons n ns)
  from XORKeyStream_cong [OF Cons.prems, of lib "replicate n 0"]
  show ?case
  proof (cases rule: option.rel_cases)
    case None
    then show ?thesis by (simp add: Read_def)
  next
    case (Some x y)
    obtain s1 o1 where x: "x = (s1, o1)" by (cases x)
    obtain t1 o2 where y: "y = (t1, o2)" by (cases y)
    from Some x y have e: "stream_equiv s1 t1" "o1 = o2" by simp_all
    have "read_stream lib (p\<lparr>cipher := s1, bytesCounter := bytesCounter p + of_nat n\<rparr>) ns
        = read_stream lib (q\<lparr>cipher := t1, bytesCounter := bytesCounter q + of_nat n\<rparr>) ns"
      using e(1) by (intro Cons.IH) simp
    with Some x y e show ?thesis by (simp add: Read_def)
  qed
qed

lemma word64_of_nat:
  assumes "B < 2 ^ 64"
  shows "(ucast ((of_nat B :: 64 word) div 64) :: 32 word) = of_nat (B div 64)"
    and "unat ((of_nat B :: 64 word) mod 64) = B mod 64"
proof -
  have u: "unat (of_nat B :: 64 word) = B"
    using assms by (simp add: unat_of_nat)
  have "unat ((of_nat B :: 64 word) div 64) = B div 64"
    by (simp add: unat_div u)
  then have "(of_nat (unat ((of_nat B :: 64 word) div 64)) :: 32 word) = of_nat (B div 64)"
    by simp
  then show "(ucast ((of_nat B :: 64 word) div 64) :: 32 word) = of_nat (B div 64)"
    by simp
  show "unat ((of_nat B :: 64 word) mod 64) = B mod 64"
    by (simp add: unat_mod u)
qed

text \<open>
  \<open>Restore\<close> on 52 bytes that hold a key, a nonce and a counter below \<open>2^38\<close>: the cipher
  of the result is where a cipher made from key and nonce is after that many bytes.
\<close>

lemma Restore_State:
  assumes sb: "load h sb = key @ nonce @ PutUint64 (of_nat B)" "sl_len sb = 52"
    and len: "length key = 32" "length nonce = 12" and B: "B < 2 ^ 38"
  shows "\<exists>h' q. Restore lib h sb = Inr (h', q) \<and> prg_inv lib key nonce B q"
proof -
  have parts: "load h (reslice sb 0 32) = key" "load h (reslice sb 32 44) = nonce"
    "load h (reslice sb 44 52) = PutUint64 (of_nat B)"
    using sb len by (simp_all add: load_reslice length_PutUint64)
  define s0 where "s0 = \<lparr>c_key = key, c_counter = 0, c_nonce = nonce,
             c_buf = replicate bufSize 0, c_len = 0, c_overflow = False\<rparr>"
  have new: "NewUnauthenticatedCipher lib key nonce = Inr s0"
    using len by (simp add: NewUnauthenticatedCipher_def KeySize_def NonceSize_def
        NonceSizeX_def s0_def)
  define s1 where "s1 = s0\<lparr>c_counter := of_nat (B div 64), c_len := 0\<rparr>"
  have sc: "SetCounter s0 (of_nat (B div 64)) = Some s1"
    by (simp add: SetCounter_def s0_def s1_def blockSize_def)
  have Bd: "B div 64 < 2 ^ 32" using B by simp
  have c1: "canon lib key nonce (64 * (B div 64)) s1"
  proof (rule canonI)
    show "c_key s1 = key" "c_nonce s1 = nonce" "length (c_buf s1) = 64"
      by (simp_all add: s1_def s0_def bufSize_def blockSize_def)
    show "64 * (B div 64) \<le> 2 ^ 38" using Bd by simp
    have d: "(64 * (B div 64) + 63) div 64 = B div 64" by simp
    show "c_counter s1 = of_nat ((64 * (B div 64) + 63) div 64)"
      unfolding d by (simp add: s1_def)
    show "c_overflow s1 = ((64 * (B div 64) + 63) div 64 = 2 ^ 32)"
      unfolding d using Bd by (simp add: s1_def s0_def)
    show "c_len s1 = (64 - 64 * (B div 64) mod 64) mod 64"
      by (simp add: s1_def)
    show "drop (64 - c_len s1) (c_buf s1)
          = drop (64 - c_len s1) (map (block lib key nonce (of_nat (64 * (B div 64) div 64))) [0..<64])"
      by (simp add: s1_def s0_def bufSize_def blockSize_def)
  qed
  have sum: "64 * (B div 64) + B mod 64 = B" by simp
  from canon_no_panic [OF c1, of "B mod 64"] B obtain s2 out where
    x: "XORKeyStream lib s1 (replicate (B mod 64) 0) = Some (s2, out)"
    unfolding sum by auto
  from canon_step [OF c1 x] have c2: "canon lib key nonce B s2"
    unfolding sum .
  obtain h1 rs where mk: "make_bytes h (B mod 64) = (h1, rs)"
    by (cases "make_bytes h (B mod 64)")
  note m = make_bytes_load [OF mk]
  have "Restore lib h sb
        = Inr (store h1 rs 0 out,
               \<lparr>cipher = s2, bytesCounter = of_nat B,
                seed = reslice sb 0 32, customizer = reslice sb 32 44\<rparr>)"
    using parts new sc x mk m(2) word64_of_nat [of B] B
    by (simp add: Restore_def Let_def KeySize_def NonceSize_def sb(2) Uint64_PutUint64)
  with c2 len show ?thesis
    by (simp add: prg_inv_def)
qed

lemma reads_total:
  "prg_inv lib key nonce B p \<Longrightarrow> B + sum_list ns \<le> 2 ^ 38 \<Longrightarrow> \<exists>p'. reads lib p ns = Some p'"
proof (induction ns arbitrary: B p)
  case Nil
  then show ?case by simp
next
  case (Cons n ns)
  from Cons.prems have c: "canon lib key nonce B (cipher p)" and b: "B + n \<le> 2 ^ 38"
    by (simp_all add: prg_inv_def)
  from canon_no_panic [OF c b] obtain p1 out where r: "Read lib p n = Some (p1, out)"
    by (auto simp: Read_def)
  from prg_inv_Read [OF Cons.prems(1) r] have "prg_inv lib key nonce (B + n) p1" by simp
  from Cons.IH [OF this] Cons.prems(2) r
  show ?case by (simp add: add.assoc)
qed

lemma wit_new: "NewChacha20 wit_lib wit_heap wit_seed_slice wit_customizer_slice = Inr wit_p0"
  by (simp add: NewChacha20_def wit_heap_def wit_seed_slice_def wit_customizer_slice_def load_def
      wit_seed_def wit_customizer_def wit_p0_def Chacha20SeedLen_def
      Chacha20CustomizerMaxLen_def KeySize_def NonceSize_def NonceSizeX_def
      NewUnauthenticatedCipher_def bufSize_def blockSize_def)

lemma wit_load:
  "load wit_heap wit_seed_slice = wit_seed" "load wit_heap wit_customizer_slice = wit_customizer"
  "load (wit_heap @ [[20]]) wit_seed_slice = wit_seed"
  "load (wit_heap @ [[20]]) wit_customizer_slice = wit_customizer"
  "valid_slice (wit_heap @ [[20]]) wit_seed_slice"
  by (simp_all add: wit_heap_def wit_seed_slice_def wit_customizer_slice_def load_def
      valid_slice_def wit_seed_def wit_customizer_def)

text \<open>
  C9. Let \<open>p\<close> be a PRG made by \<open>NewChacha20(seed, customizer)\<close> from which fewer than
  \<open>2^38\<close> bytes (the 256 GiB that a 32-bit counter of 64-byte blocks allows) have been
  read, in any number of calls of \<open>Read\<close>. Let \<open>State\<close> be called on \<open>p\<close> in a memory \<open>h\<close>
  in which the elements of \<open>seed\<close> and of \<open>customizer\<close> are what they were when the PRG
  was made. Then the slice that \<open>State\<close> returns holds the seed (32 bytes), then the
  customizer (12 bytes), then the number of bytes read as 64 bits, little endian, whether
  \<open>append\<close> has written it into the array of \<open>seed\<close> or into a new one; \<open>Restore\<close> of it
  succeeds, and every sequence of reads gives the same output on the restored PRG as on
  \<open>p\<close> (and panics on the one iff it panics on the other). \<open>Restore\<close> returns an error
  for every slice whose length is not 52. What the reads, and the program around them,
  have done to the memory since the PRG was made is left open: \<open>h\<close> is any memory that
  satisfies the condition.
\<close>

theorem Restore_State_stream:
  assumes new: "NewChacha20 lib h0 sd cust = Inr p0"
    and rd: "reads lib p0 ns = Some p"
    and below: "sum_list ns < 2 ^ 38"
    and valid: "valid_slice h sd"
    and kept: "load h sd = load h0 sd" "load h cust = load h0 cust"
    and st: "State grow h p = (h', stateBytes)"
  shows "(\<exists>h'' q. Restore lib h' stateBytes = Inr (h'', q) \<and>
                 (\<forall>ms. read_stream lib q ms = read_stream lib p ms)) \<and>
         load h' stateBytes = load h0 sd @ load h0 cust @ PutUint64 (of_nat (sum_list ns)) \<and>
         length (load h0 sd) = 32 \<and> length (load h0 cust) = 12 \<and>
         (\<forall>m b. sl_len b \<noteq> 52 \<longrightarrow> Restore lib m b = Inl (StateLength (sl_len b)))"
proof -
  note n = prg_inv_new [OF new]
  from prg_inv_reads [OF n(1) rd] n(2,3)
  have inv: "prg_inv lib (load h0 sd) (load h0 cust) (sum_list ns) p"
    and sl: "seed p = sd" "customizer p = cust"
    by simp_all
  from inv have f: "bytesCounter p = of_nat (sum_list ns)"
    "length (load h0 sd) = 32" "length (load h0 cust) = 12"
    by (simp_all add: prg_inv_def)
  from new have l: "sl_len sd = 32"
    by (auto simp: NewChacha20_def Chacha20SeedLen_def KeySize_def split: if_splits)
  from valid have v: "valid_slice h (seed p)" by (simp add: sl)
  from State_load [OF v st]
  have sb: "load h' stateBytes = load h0 sd @ load h0 cust @ PutUint64 (of_nat (sum_list ns))"
    "sl_len stateBytes = 52"
    by (simp_all add: sl kept f l)
  from Restore_State [OF sb f(2,3) below] obtain h'' q where
    q: "Restore lib h' stateBytes = Inr (h'', q)"
    and qi: "prg_inv lib (load h0 sd) (load h0 cust) (sum_list ns) q"
    by blast
  from inv qi have "stream_equiv (cipher q) (cipher p)"
    by (auto simp: prg_inv_def intro: canon_equiv)
  then have "\<forall>ms. read_stream lib q ms = read_stream lib p ms"
    by (simp add: read_stream_equiv)
  moreover have "\<forall>m b. sl_len b \<noteq> 52 \<longrightarrow> Restore lib m b = Inl (StateLength (sl_len b))"
    by (simp add: Restore_def KeySize_def NonceSize_def)
  ultimately show ?thesis using q sb(1) f(2,3) by blast
qed

lemma PutUint64_74: "PutUint64 74 = [74, 0, 0, 0, 0, 0, 0, 0]"
  by (simp add: PutUint64_def upt_rec drop_bit_eq_div)

theorem Restore_State_stream_witness:
  "NewChacha20 wit_lib wit_heap wit_seed_slice wit_customizer_slice = Inr wit_p0 \<and>
   sum_list [3, 70, 1] < (2::nat) ^ 38 \<and>
   valid_slice (wit_heap @ [[20]]) wit_seed_slice \<and>
   load (wit_heap @ [[20]]) wit_seed_slice = load wit_heap wit_seed_slice \<and>
   load (wit_heap @ [[20]]) wit_customizer_slice = load wit_heap wit_customizer_slice \<and>
   (\<exists>p h' stateBytes.
      reads wit_lib wit_p0 [3, 70, 1] = Some p \<and>
      State wit_grow (wit_heap @ [[20]]) p = (h', stateBytes) \<and>
      load h' stateBytes = wit_seed @ wit_customizer @ [74, 0, 0, 0, 0, 0, 0, 0] \<and>
      (\<exists>h'' q. Restore wit_lib h' stateBytes = Inr (h'', q) \<and>
               (\<forall>ms. read_stream wit_lib q ms = read_stream wit_lib p ms))) \<and>
   sl_len wit_customizer_slice \<noteq> 52 \<and>
   Restore wit_lib wit_heap wit_customizer_slice = Inl (StateLength 12)"
proof -
  have b: "sum_list [3, 70, 1] < (2::nat) ^ 38" by simp
  from reads_total [OF prg_inv_new(1) [OF wit_new], of "[3, 70, 1]"]
  obtain p where p: "reads wit_lib wit_p0 [3, 70, 1] = Some p" by auto
  obtain h' stateBytes where st: "State wit_grow (wit_heap @ [[20]]) p = (h', stateBytes)"
    by (cases "State wit_grow (wit_heap @ [[20]]) p")
  have k: "load (wit_heap @ [[20]]) wit_seed_slice = load wit_heap wit_seed_slice"
    "load (wit_heap @ [[20]]) wit_customizer_slice = load wit_heap wit_customizer_slice"
    by (simp_all add: wit_load)
  note t = Restore_State_stream [OF wit_new p b wit_load(5) k st]
  have n: "sl_len wit_customizer_slice \<noteq> 52"
    by (simp add: wit_customizer_slice_def)
  from t n have r: "Restore wit_lib wit_heap wit_customizer_slice
      = Inl (StateLength (sl_len wit_customizer_slice))"
    by blast
  from t have s: "load h' stateBytes = wit_seed @ wit_customizer @ [74, 0, 0, 0, 0, 0, 0, 0]"
    by (simp add: wit_load PutUint64_74)
  from t have e: "\<exists>h'' q. Restore wit_lib h' stateBytes = Inr (h'', q) \<and>
               (\<forall>ms. read_stream wit_lib q ms = read_stream wit_lib p ms)"
    by blast
  from p st s e have "\<exists>p h' stateBytes.
      reads wit_lib wit_p0 [3, 70, 1] = Some p \<and>
      State wit_grow (wit_heap @ [[20]]) p = (h', stateBytes) \<and>
      load h' stateBytes = wit_seed @ wit_customizer @ [74, 0, 0, 0, 0, 0, 0, 0] \<and>
      (\<exists>h'' q. Restore wit_lib h' stateBytes = Inr (h'', q) \<and>
               (\<forall>ms. read_stream wit_lib q ms = read_stream wit_lib p ms))"
    by blast
  with wit_new b wit_load(5) k n r show ?thesis
    by (simp add: wit_customizer_slice_def)
qed

text \<open>
  The bound on the bytes read is needed. After exactly \<open>2^38\<close> bytes the cipher of \<open>p\<close> has used up
  its counter and every further read panics, while \<open>Restore\<close> truncates the number of
  blocks to 32 bits and returns a PRG that starts again at block 0.
\<close>

lemma Read_fresh_blocks:
  assumes n: "0 < n" "n mod 64 = 0" "n div 64 \<le> 2 ^ 32"
    and s: "c_len (cipher p) = 0" "length (c_buf (cipher p)) = 64" "\<not> c_overflow (cipher p)"
      "c_counter (cipher p) = 0"
  shows "map_option fst (Read lib p n) =
         Some (p\<lparr>cipher := (cipher p)\<lparr>c_counter := of_nat (n div 64), c_len := 0,
                                        c_overflow := (n div 64 = 2 ^ 32)\<rparr>,
                  bytesCounter := bytesCounter p + of_nat n\<rparr>)"
proof -
  have "XORKeyStream lib (cipher p) (replicate n 0) = refill lib (cipher p) (replicate n 0)"
    using n(1) s(1,2) XORKeyStream_refill_eq [of "cipher p" "replicate n 0" lib] by simp
  moreover have "(n + 63) div 64 = n div 64" using n(2) by (rule ceil0)
  ultimately show ?thesis
    using n s by (simp add: Read_def refill_def Let_def)
qed

lemma counter_wraps: "(4294967296 :: 32 word) = 0"
proof -
  have "(of_nat (2 ^ LENGTH(32)) :: 32 word) = 0" by (rule of_nat_2p)
  then show ?thesis by simp
qed

lemma cex_reads: "reads wit_lib wit_p0 [2 ^ 38] = Some cex_p"
proof -
  have "map_option fst (Read wit_lib wit_p0 (2 ^ 38)) = Some cex_p"
    using Read_fresh_blocks [of "2 ^ 38" wit_p0 wit_lib]
    by (simp add: wit_p0_def cex_p_def counter_wraps)
  then show ?thesis by (auto split: option.splits)
qed

lemma PutUint64_2p38: "PutUint64 274877906944 = [0, 0, 0, 0, 64, 0, 0, 0]"
  by (simp add: PutUint64_def upt_rec drop_bit_eq_div)

lemma cex_State: "State wit_grow wit_heap cex_p = (cex_heap, cex_state)"
  by (simp add: State_def go_append_def make_bytes_def store_def load_def Let_def
      cex_p_def wit_heap_def wit_seed_slice_def wit_customizer_slice_def wit_grow_def
      cex_heap_def cex_state_def PutUint64_2p38 wit_seed_def wit_customizer_def)

lemma cex_restore: "Restore wit_lib cex_heap cex_state = Inr (cex_heap @ [[]], cex_q)"
proof -
  have l: "load cex_heap cex_state = wit_seed @ wit_customizer @ PutUint64 (2 ^ 38)"
    by (simp add: load_def cex_heap_def cex_state_def PutUint64_2p38 wit_seed_def
        wit_customizer_def)
  have parts: "load cex_heap (reslice cex_state 0 32) = wit_seed"
    "load cex_heap (reslice cex_state 32 44) = wit_customizer"
    "load cex_heap (reslice cex_state 44 52) = PutUint64 (2 ^ 38)"
    using l by (simp_all add: load_reslice cex_state_def length_PutUint64 wit_seed_def
        wit_customizer_def)
  have w: "(ucast ((2 ^ 38 :: 64 word) div 64) :: 32 word) = 0"
          "unat ((2 ^ 38 :: 64 word) mod 64) = 0"
    using word64_of_nat [of "2 ^ 38"] by simp_all
  have r: "reslice cex_state 0 32 = \<lparr>sl_array = 2, sl_off = 0, sl_len = 32, sl_cap = 64\<rparr>"
    "reslice cex_state 32 44 = \<lparr>sl_array = 2, sl_off = 32, sl_len = 12, sl_cap = 32\<rparr>"
    by (simp_all add: reslice_def cex_state_def)
  have e: "store (cex_heap @ [[]]) \<lparr>sl_array = length cex_heap, sl_off = 0, sl_len = 0, sl_cap = 0\<rparr> 0 []
         = cex_heap @ [[]]"
    "load (cex_heap @ [[]]) \<lparr>sl_array = length cex_heap, sl_off = 0, sl_len = 0, sl_cap = 0\<rparr> = []"
    by (simp_all add: store_def load_def)
  have sl: "sl_len cex_state = 52" by (simp add: cex_state_def)
  show ?thesis
    using parts w
    by (simp add: Restore_def Let_def KeySize_def NonceSize_def NonceSizeX_def Uint64_PutUint64
        sl r e cex_q_def NewUnauthenticatedCipher_def wit_seed_def wit_customizer_def
        SetCounter_def XORKeyStream_def make_bytes_def bufSize_def blockSize_def)
qed

lemma cex_q_read: "read_stream wit_lib cex_q [1] = Some [[10]]"
proof -
  have "XORKeyStream wit_lib (cipher cex_q) (replicate 1 0) = refill wit_lib (cipher cex_q) (replicate 1 0)"
    using XORKeyStream_refill_eq [of "cipher cex_q" "replicate 1 0" wit_lib]
    by (simp add: cex_q_def)
  then show ?thesis
    by (simp add: Read_def refill_def Let_def cex_q_def xorBytes_def
        keyStreamBlock_def blockSize_def wit_lib_def wit_seed_def wit_customizer_def upt_rec)
qed

lemma cex_p_read: "read_stream wit_lib cex_p [1] = None"
proof -
  have "XORKeyStream wit_lib (cipher cex_p) (replicate 1 0) = refill wit_lib (cipher cex_p) (replicate 1 0)"
    using XORKeyStream_refill_eq [of "cipher cex_p" "replicate 1 0" wit_lib]
    by (simp add: cex_p_def)
  then show ?thesis
    by (simp add: Read_def refill_def Let_def cex_p_def)
qed

theorem Restore_exhausted_counterexample:
  "NewChacha20 wit_lib wit_heap wit_seed_slice wit_customizer_slice = Inr wit_p0 \<and>
   reads wit_lib wit_p0 [2 ^ 38] = Some cex_p \<and>
   State wit_grow wit_heap cex_p = (cex_heap, cex_state) \<and>
   Restore wit_lib cex_heap cex_state = Inr (cex_heap @ [[]], cex_q) \<and>
   read_stream wit_lib cex_q [1] = Some [[10]] \<and>
   read_stream wit_lib cex_p [1] = None"
  using wit_new cex_reads cex_State cex_restore cex_q_read cex_p_read by blast

text \<open>
  So is the condition on the memory. \<open>State\<close> appends to the slice \<open>seed\<close> itself: when
  that slice has spare capacity, customizer and counter are written into its array, over
  whatever lies behind the seed there. Here that is the seed of a second PRG, whose cipher
  keeps the key it was made with, while \<open>State\<close> now reports the overwritten seed: the PRG
  restored from it gives another stream.
\<close>

lemma shared_new:
  "NewChacha20 wit_lib shared_heap shared_seedA shared_custA = Inr shared_pA"
  "NewChacha20 wit_lib shared_heap shared_seedB shared_custB = Inr shared_pB"
  by (simp_all add: NewChacha20_def shared_heap_def shared_seedA_def shared_custA_def
      shared_seedB_def shared_custB_def load_def shared_pA_def shared_pB_def Chacha20SeedLen_def
      Chacha20CustomizerMaxLen_def KeySize_def NonceSize_def NonceSizeX_def
      NewUnauthenticatedCipher_def bufSize_def blockSize_def)

lemma PutUint64_0: "PutUint64 0 = replicate 8 0"
proof -
  have "PutUint64 0 = [0, 0, 0, 0, 0, 0, 0, 0]"
    by (simp add: PutUint64_def upt_rec)
  also have "\<dots> = replicate 8 0"
    by (simp add: eval_nat_numeral)
  finally show ?thesis .
qed

lemma shared_StateA: "State wit_grow shared_heap shared_pA = (shared_heap1, shared_stateA)"
  by (simp add: State_def go_append_def make_bytes_def store_def load_def Let_def
      shared_pA_def shared_heap_def shared_seedA_def shared_custA_def wit_grow_def
      shared_heap1_def shared_stateA_def PutUint64_0)

lemma shared_StateB: "State wit_grow shared_heap1 shared_pB = (shared_heap2, shared_stateB)"
  by (simp add: State_def go_append_def make_bytes_def store_def load_def Let_def
      shared_pB_def shared_heap1_def shared_seedB_def shared_custB_def wit_grow_def
      shared_heap2_def shared_stateB_def PutUint64_0)

lemma shared_Restore: "Restore wit_lib shared_heap2 shared_stateB = Inr (shared_heap2 @ [[]], shared_qB)"
proof -
  have l: "load shared_heap2 shared_stateB
      = (replicate 12 5 @ replicate 8 0 @ replicate 12 2) @ replicate 12 6 @ PutUint64 0"
    by (simp add: load_def shared_heap2_def shared_stateB_def PutUint64_0)
  have parts: "load shared_heap2 (reslice shared_stateB 0 32)
      = replicate 12 5 @ replicate 8 0 @ replicate 12 2"
    "load shared_heap2 (reslice shared_stateB 32 44) = replicate 12 6"
    "load shared_heap2 (reslice shared_stateB 44 52) = PutUint64 0"
    using l by (simp_all add: load_reslice shared_stateB_def length_PutUint64)
  have r: "reslice shared_stateB 0 32 = \<lparr>sl_array = 4, sl_off = 0, sl_len = 32, sl_cap = 64\<rparr>"
    "reslice shared_stateB 32 44 = \<lparr>sl_array = 4, sl_off = 32, sl_len = 12, sl_cap = 32\<rparr>"
    by (simp_all add: reslice_def shared_stateB_def)
  have e: "store (shared_heap2 @ [[]])
             \<lparr>sl_array = length shared_heap2, sl_off = 0, sl_len = 0, sl_cap = 0\<rparr> 0 []
         = shared_heap2 @ [[]]"
    "load (shared_heap2 @ [[]])
             \<lparr>sl_array = length shared_heap2, sl_off = 0, sl_len = 0, sl_cap = 0\<rparr> = []"
    by (simp_all add: store_def load_def)
  have sl: "sl_len shared_stateB = 52" by (simp add: shared_stateB_def)
  show ?thesis
    using parts
    by (simp add: Restore_def Let_def KeySize_def NonceSize_def NonceSizeX_def Uint64_PutUint64
        sl r e shared_qB_def NewUnauthenticatedCipher_def
        SetCounter_def XORKeyStream_def make_bytes_def bufSize_def blockSize_def)
qed

lemma shared_pB_read: "read_stream wit_lib shared_pB [1] = Some [[8]]"
proof -
  have "XORKeyStream wit_lib (cipher shared_pB) (replicate 1 0)
      = refill wit_lib (cipher shared_pB) (replicate 1 0)"
    using XORKeyStream_refill_eq [of "cipher shared_pB" "replicate 1 0" wit_lib]
    by (simp add: shared_pB_def)
  then show ?thesis
    by (simp add: Read_def refill_def Let_def shared_pB_def xorBytes_def
        keyStreamBlock_def blockSize_def wit_lib_def upt_rec)
qed

lemma shared_qB_read: "read_stream wit_lib shared_qB [1] = Some [[11]]"
proof -
  have "XORKeyStream wit_lib (cipher shared_qB) (replicate 1 0)
      = refill wit_lib (cipher shared_qB) (replicate 1 0)"
    using XORKeyStream_refill_eq [of "cipher shared_qB" "replicate 1 0" wit_lib]
    by (simp add: shared_qB_def)
  then show ?thesis
    by (simp add: Read_def refill_def Let_def shared_qB_def xorBytes_def
        keyStreamBlock_def blockSize_def wit_lib_def upt_rec nth_append)
qed

theorem State_overwrites_shared_seed:
  "NewChacha20 wit_lib shared_heap shared_seedA shared_custA = Inr shared_pA \<and>
   NewChacha20 wit_lib shared_heap shared_seedB shared_custB = Inr shared_pB \<and>
   State wit_grow shared_heap shared_pA = (shared_heap1, shared_stateA) \<and>
   load shared_heap shared_seedB = replicate 32 2 \<and>
   load shared_heap1 shared_seedB = replicate 12 5 @ replicate 8 0 @ replicate 12 2 \<and>
   State wit_grow shared_heap1 shared_pB = (shared_heap2, shared_stateB) \<and>
   Restore wit_lib shared_heap2 shared_stateB = Inr (shared_heap2 @ [[]], shared_qB) \<and>
   read_stream wit_lib shared_qB [1] = Some [[11]] \<and>
   read_stream wit_lib shared_pB [1] = Some [[8]]"
proof -
  have "load shared_heap shared_seedB = replicate 32 2"
    "load shared_heap1 shared_seedB = replicate 12 5 @ replicate 8 0 @ replicate 12 2"
    by (simp_all add: load_def shared_heap_def shared_heap1_def shared_seedB_def)
  with shared_new shared_StateA shared_StateB shared_Restore shared_qB_read shared_pB_read
  show ?thesis by blast
qed

section \<open>Properties of the proofs of membership\<close>

lemma byte_bits_inj: "byte_bits a = byte_bits b \<Longrightarrow> a = b"
proof (rule bit_word_eqI)
  fix n assume eq: "byte_bits a = byte_bits b" and n: "n < LENGTH(8)"
  from eq have "\<forall>i \<in> set [0..<8]. bit a (7 - i) = bit b (7 - i)"
    unfolding byte_bits_def by (simp only: map_eq_conv)
  moreover have "7 - n \<in> set [0..<8]" by simp
  ultimately have "bit a (7 - (7 - n)) = bit b (7 - (7 - n))" by blast
  with n show "bit a n = bit b n" by simp
qed

lemma length_byte_bits: "length (byte_bits b) = 8"
  by (simp add: byte_bits_def)

lemma key_bits_inj: "key_bits k = key_bits k' \<Longrightarrow> k = k'"
proof (induction k arbitrary: k')
  case Nil
  then show ?case
    by (cases k') (auto simp: key_bits_def byte_bits_def)
next
  case (Cons a k)
  show ?case
  proof (cases k')
    case Nil
    with Cons.prems show ?thesis by (auto simp: key_bits_def byte_bits_def)
  next
    case (Cons b k'')
    with Cons.prems have "byte_bits a @ key_bits k = byte_bits b @ key_bits k''"
      by (simp add: key_bits_def)
    then have "byte_bits a = byte_bits b" "key_bits k = key_bits k''"
      by (simp_all add: length_byte_bits)
    with Cons.IH Cons show ?thesis by (simp add: byte_bits_inj)
  qed
qed

lemma combine_same: "combine hsh b d d = hsh (d @ d)"
  by (simp add: combine_def)

lemma combine_swap: "b \<noteq> p \<Longrightarrow> combine hsh b x y = combine hsh p y x"
  by (auto simp: combine_def)

lemma climb_default:
  "length bs = n \<Longrightarrow>
   climb hsh j bs (replicate n True) [] (default_digest hsh j) = Some (default_digest hsh (j + n))"
proof (induction bs arbitrary: j n)
  case Nil
  then show ?case by simp
next
  case (Cons b bs)
  then obtain m where n: "n = Suc m" and m: "length bs = m" by (cases n) auto
  from Cons.IH [OF m, of "Suc j"] show ?case
    by (simp add: n combine_same)
qed

lemma climb_append:
  "climb hsh j bs1 fs1 sibs1 cur = Some d \<Longrightarrow>
   climb hsh j (bs1 @ bs2) (fs1 @ fs2) (sibs1 @ sibs2) cur
     = climb hsh (j + length bs1) bs2 fs2 sibs2 d"
proof (induction hsh j bs1 fs1 sibs1 cur rule: climb.induct)
  case (1 hsh j current)
  then show ?case by simp
next
  case (2 hsh j b bs flags siblings current)
  then show ?case by simp
next
  case (3 hsh j b bs flags s siblings current)
  then show ?case by simp
qed simp_all

lemma run_digest_append:
  "run_digest hsh h (xs @ ys) d = run_digest hsh (h + length xs) ys (run_digest hsh h xs d)"
  by (induction xs arbitrary: h d) simp_all

lemma sib_Cons:
  "sib_flags (s # ss) = sib_flags ss @ [s = None]"
  "sib_digests (s # ss) = sib_digests ss @ (case s of None \<Rightarrow> [] | Some d \<Rightarrow> [d])"
  by (simp_all add: sib_flags_def sib_digests_def split: option.splits)

lemma sib_replicate:
  "sib_flags (replicate n None) = replicate n True"
  "sib_digests (replicate n None) = []"
  by (simp_all add: sib_flags_def sib_digests_def)

lemma walk_sound:
  "wf_sub h pre t \<Longrightarrow> length bs = h \<Longrightarrow> key_bits k = pre @ bs \<Longrightarrow> walk hsh h bs t = (v, ss) \<Longrightarrow>
   climb hsh 0 (rev bs) (sib_flags ss) (sib_digests ss) (leaf_start hsh k v)
     = Some (subtree_digest hsh h t)"
proof (induction hsh h bs t arbitrary: pre v ss rule: walk.induct)
  case (1 hsh h bs)
  then show ?case
    using climb_default [of "rev bs" h hsh 0]
    by (auto simp: sib_replicate leaf_start_def subtree_digest_def)
next
  case (2 hsh h bs k' v')
  then have "key_bits k = key_bits k'" by (simp add: wf_sub_def)
  then have "k = k'" by (rule key_bits_inj)
  with 2 show ?case
    by (auto simp: wf_sub_def sib_flags_def sib_digests_def leaf_start_def subtree_digest_def)
next
  case (3 hsh h l r)
  then show ?case by (simp add: wf_sub_def)
next
  case (4 hsh h b bs l r)
  let ?taken = "if b then r else l"
  let ?other = "if b then l else r"
  obtain v' ss' where w: "walk hsh (h - 1) bs ?taken = (v', ss')" by (cases "walk hsh (h - 1) bs ?taken")
  from "4.prems"(1) have hpos: "0 < h" and wft: "wf_sub (h - 1) (pre @ [b]) ?taken"
    by (auto simp: wf_sub_def split: option.splits)
  from "4.prems"(2) hpos have len: "length bs = h - 1" by simp
  from "4.prems"(3) have kb: "key_bits k = (pre @ [b]) @ bs" by simp
  from "4.prems"(4) w have v: "v = v'"
    and ss: "ss = (case ?other of None \<Rightarrow> None | Some n \<Rightarrow> Some (node_digest hsh (h - 1) n)) # ss'"
    by (simp_all add: Let_def)
  from "4.IH" [OF wft len kb w]
  have low: "climb hsh 0 (rev bs) (sib_flags ss') (sib_digests ss') (leaf_start hsh k v')
             = Some (subtree_digest hsh (h - 1) ?taken)" .
  have "climb hsh 0 (rev (b # bs)) (sib_flags ss) (sib_digests ss) (leaf_start hsh k v)
        = climb hsh (h - 1) [b] [?other = None]
            (case ?other of None \<Rightarrow> [] | Some n \<Rightarrow> [node_digest hsh (h - 1) n])
            (subtree_digest hsh (h - 1) ?taken)"
    using climb_append [OF low, of "[b]"] len
    by (simp add: ss v sib_Cons split: option.splits)
  also have "\<dots> = Some (combine hsh b (subtree_digest hsh (h - 1) ?taken)
                                   (subtree_digest hsh (h - 1) ?other))"
    by (cases ?other) (simp_all add: subtree_digest_def)
  also have "\<dots> = Some (subtree_digest hsh h (Some (Interior l r)))"
    by (simp add: combine_def subtree_digest_def split: option.splits)
  finally show ?case .
next
  case (5 hsh h bs c)
  then show ?case by (simp add: wf_sub_def subtree_digest_def)
next
  case (6 hsh h p ps c)
  then show ?case by (simp add: wf_sub_def)
next
  case (7 hsh h b bs p ps c)
  from "7.prems"(1) have lp: "Suc (length ps) \<le> h"
    and wfc: "wf_node (h - Suc (length ps)) (pre @ p # ps) c"
    by (simp_all add: wf_sub_def)
  from "7.prems"(2) lp have len: "length bs = h - 1" by simp
  have hh: "h - Suc (length ps) + length ps = h - 1" using lp by simp
  have top: "node_digest hsh h (Extension (p # ps) c)
             = combine hsh p (node_digest hsh (h - 1) (Extension ps c)) (default_digest hsh (h - 1))"
    using lp by (simp add: run_digest_append hh)
  show ?case
  proof (cases "b = p")
    case True
    obtain v' ss' where w: "walk hsh (h - 1) bs (Some (Extension ps c)) = (v', ss')"
      by (cases "walk hsh (h - 1) bs (Some (Extension ps c))")
    have wft: "wf_sub (h - 1) (pre @ [p]) (Some (Extension ps c))"
      using lp wfc by (simp add: wf_sub_def)
    from "7.prems"(3) True have kb: "key_bits k = (pre @ [p]) @ bs" by simp
    from "7.prems"(4) w True have v: "v = v'" and ss: "ss = None # ss'"
      by (simp_all add: Let_def)
    from "7.IH" [OF True wft len kb w]
    have low: "climb hsh 0 (rev bs) (sib_flags ss') (sib_digests ss') (leaf_start hsh k v')
               = Some (subtree_digest hsh (h - 1) (Some (Extension ps c)))" .
    have "climb hsh 0 (rev (b # bs)) (sib_flags ss) (sib_digests ss) (leaf_start hsh k v)
          = climb hsh (h - 1) [b] [True] [] (subtree_digest hsh (h - 1) (Some (Extension ps c)))"
      using climb_append [OF low, of "[b]" "[True]" "[]"] len
      by (simp add: ss v sib_Cons)
    also have "\<dots> = Some (subtree_digest hsh h (Some (Extension (p # ps) c)))"
      unfolding subtree_digest_def option.case top using True by simp
    finally show ?thesis .
  next
    case False
    from "7.prems"(4) False have v: "v = None"
      and ss: "ss = Some (node_digest hsh (h - 1) (Extension ps c)) # replicate (h - 1) None"
      by simp_all
    have low: "climb hsh 0 (rev bs) (replicate (h - 1) True) [] (default_digest hsh 0)
               = Some (default_digest hsh (h - 1))"
      using climb_default [of "rev bs" "h - 1" hsh 0] len by simp
    have "climb hsh 0 (rev (b # bs)) (sib_flags ss) (sib_digests ss) (leaf_start hsh k v)
          = climb hsh (h - 1) [b] [False] [node_digest hsh (h - 1) (Extension ps c)]
              (default_digest hsh (h - 1))"
      using climb_append [OF low, of "[b]" "[False]" "[node_digest hsh (h - 1) (Extension ps c)]"] len
      by (simp add: ss v sib_Cons sib_replicate leaf_start_def)
    also have "\<dots> = Some (subtree_digest hsh h (Some (Extension (p # ps) c)))"
      unfolding subtree_digest_def option.case top
      using combine_swap [OF False, of hsh] by simp
    finally show ?thesis .
  qed
qed

lemma walk_get: "fst (walk hsh h bs t) = get_node bs t"
  by (induction hsh h bs t rule: walk.induct) (simp_all add: case_prod_beta Let_def)

lemma prove_key_sound:
  assumes wf: "wf_trie T" and key: "valid_key (depth T) k"
  shows "VerifyProof hsh (prove_key hsh T k) (RootHash hsh T)"
    and "pf_value (prove_key hsh T k) = get_value T k"
    and "pf_key (prove_key hsh T k) = k"
proof -
  obtain v ss where w: "walk hsh (depth T) (key_bits k) (root T) = (v, ss)"
    by (cases "walk hsh (depth T) (key_bits k) (root T)")
  have p: "prove_key hsh T k = \<lparr>pf_key = k, pf_value = v, pf_siblings = sib_digests ss,
                                 pf_flags = sib_flags ss\<rparr>"
    by (simp add: prove_key_def w sib_digests_def sib_flags_def)
  from wf have "wf_sub (depth T) [] (root T)" by (simp add: wf_trie_def wf_sub_def)
  from walk_sound [OF this _ _ w, of k] key
  have "climb hsh 0 (rev (key_bits k)) (sib_flags ss) (sib_digests ss) (leaf_start hsh k v)
        = Some (subtree_digest hsh (depth T) (root T))"
    by (simp add: valid_key_def)
  then show "VerifyProof hsh (prove_key hsh T k) (RootHash hsh T)"
    by (simp add: VerifyProof_def recompute_def p RootHash_def leaf_start_def
        cong: option.case_cong)
  from walk_get [of hsh "depth T" "key_bits k" "root T"] w
  show "pf_value (prove_key hsh T k) = get_value T k"
    by (simp add: p get_value_def)
  show "pf_key (prove_key hsh T k) = k" by (simp add: p)
qed

text \<open>
  C6. Let \<open>T\<close> be a trie as updates build it, \<open>k\<close> a key of as many bits as the trie is
  deep, and let the forest resolve the root digest of \<open>T\<close> to \<open>T\<close>. Then
  \<open>Proofs(T.RootHash(), [k])\<close> returns one proof, for \<open>k\<close>. If \<open>k\<close> has the value \<open>v\<close> in \<open>T\<close>,
  the proof carries \<open>v\<close> and verifies against the root digest of \<open>T\<close>; if \<open>k\<close> is not set in
  \<open>T\<close>, the proof carries the mark of non-membership and verifies against the root digest
  of \<open>T\<close>. Verification recomputes the digests from \<open>H(key || value)\<close>, or from the default
  digest of a leaf, up to the root, and accepts iff the last digest is the claimed root.
\<close>

theorem proof_soundness:
  assumes wf: "wf_trie T" and key: "valid_key (depth T) k"
    and res: "GetTrie (RootHash hsh T) = Inr T"
  shows "\<exists>p. Proofs hsh GetTrie (RootHash hsh T) [k] = Inr \<lparr>bp_proofs = [p], bp_depth = depth T\<rparr> \<and>
             pf_key p = k \<and>
             (\<forall>v. get_value T k = Some v \<longrightarrow>
                  pf_value p = Some v \<and> VerifyProof hsh p (RootHash hsh T)) \<and>
             (get_value T k = None \<longrightarrow>
                  pf_value p = None \<and> VerifyProof hsh p (RootHash hsh T)) \<and>
             (\<forall>q r. VerifyProof hsh q r \<longleftrightarrow> recompute hsh q = Some r)"
proof -
  have "Proofs hsh GetTrie (RootHash hsh T) [k]
        = Inr \<lparr>bp_proofs = [prove_key hsh T k], bp_depth = depth T\<rparr>"
    by (simp add: Proofs_def res)
  with prove_key_sound [OF wf key, of hsh] show ?thesis
    by (auto simp: VerifyProof_def)
qed

lemma wit_bits: "key_bits [1] = [False, False, False, False, False, False, False, True]"
  "key_bits [2] = [False, False, False, False, False, False, True, False]"
  by (simp_all add: key_bits_def byte_bits_def upt_rec)

lemma wit_facts:
  "wf_trie wit_trie" "valid_key (depth wit_trie) [1]" "valid_key (depth wit_trie) [2]"
  "wit_GetTrie (RootHash wit_hsh wit_trie) = Inr wit_trie"
  "get_value wit_trie [1] = Some [65]" "get_value wit_trie [2] = None"
  by (simp_all add: wf_trie_def wit_trie_def valid_key_def wit_bits wit_GetTrie_def get_value_def)

theorem proof_soundness_witness:
  "wf_trie wit_trie \<and> valid_key (depth wit_trie) [1] \<and> valid_key (depth wit_trie) [2] \<and>
   wit_GetTrie (RootHash wit_hsh wit_trie) = Inr wit_trie \<and>
   get_value wit_trie [1] = Some [65] \<and> get_value wit_trie [2] = None \<and>
   (\<exists>p. Proofs wit_hsh wit_GetTrie (RootHash wit_hsh wit_trie) [[1]]
          = Inr \<lparr>bp_proofs = [p], bp_depth = 8\<rparr> \<and>
        pf_value p = Some [65] \<and> VerifyProof wit_hsh p (RootHash wit_hsh wit_trie)) \<and>
   (\<exists>p. Proofs wit_hsh wit_GetTrie (RootHash wit_hsh wit_trie) [[2]]
          = Inr \<lparr>bp_proofs = [p], bp_depth = 8\<rparr> \<and>
        pf_value p = None \<and> VerifyProof wit_hsh p (RootHash wit_hsh wit_trie))"
proof -
  have d: "depth wit_trie = 8" by (simp add: wit_trie_def)
  from proof_soundness [of wit_trie "[1]" wit_GetTrie wit_hsh, OF wit_facts(1,2,4)] wit_facts(5)
  have "\<exists>p. Proofs wit_hsh wit_GetTrie (RootHash wit_hsh wit_trie) [[1]]
          = Inr \<lparr>bp_proofs = [p], bp_depth = 8\<rparr> \<and>
        pf_value p = Some [65] \<and> VerifyProof wit_hsh p (RootHash wit_hsh wit_trie)"
    unfolding d by blast
  moreover from proof_soundness [of wit_trie "[2]" wit_GetTrie wit_hsh, OF wit_facts(1,3,4)]
    wit_facts(6)
  have "\<exists>p. Proofs wit_hsh wit_GetTrie (RootHash wit_hsh wit_trie) [[2]]
          = Inr \<lparr>bp_proofs = [p], bp_depth = 8\<rparr> \<and>
        pf_value p = None \<and> VerifyProof wit_hsh p (RootHash wit_hsh wit_trie)"
    unfolding d by blast
  ultimately show ?thesis using wit_facts by blast
qed


end
